theory Spec2Isabelle
  imports Complex_Main "HOL-Library.Log_Nat"
begin

section \<open>Monte Carlo betting simulation of \<open>going_against_the_odds.ipynb\<close>\<close>

text \<open>
  The notebook resamples a matrix of per-match payouts: \<open>select_random_row\<close> draws rows with
  replacement, \<open>select_random_col\<close> picks one enabled column per drawn row,
  \<open>monte_carlo_sum\<close> repeats both and stores the sum of every run, and a top-level loop keeps
  the running balance of every run and reduces it to percentiles.

  The three functions are compiled by numba and draw from numba's process-wide generator.
  That generator is library code: it is a parameter of the model, a seeding function and a
  bounded draw on an explicit state that every function takes and returns.
\<close>

subsection \<open>Values, arrays and failures\<close>

type_synonym 'a matrix = "'a list list"

text \<open>
  \<open>ValueError\<close> is the exception numpy and numba raise for a negative array size, an empty
  population to draw from and a percentile outside \<open>[0, 100]\<close>. \<open>UncheckedRead\<close> marks an
  array read outside the array: numba compiles \<open>data[row, col]\<close> without a bounds check, so
  the code raises nothing there and what it reads is not defined. \<open>KeyError\<close> is a missing
  data-frame column, \<open>NoData\<close> a percentile of no values at all.
\<close>

datatype failure = ValueError | UncheckedRead | KeyError | NoData

text \<open>
  A float64 payout: a finite value, an infinity or NaN. Addition follows IEEE 754 on the
  special values; on finite values it is the exact sum (rounding and overflow are not
  modelled here; the rounding of finite sums is modelled by \<open>float64\<close> below).
\<close>

datatype payout = Finite real | PosInf | NegInf | NaN

instantiation payout :: "{zero,plus}"
begin

definition zero_payout :: payout where
  "zero_payout = Finite 0"

fun plus_payout :: "payout \<Rightarrow> payout \<Rightarrow> payout" where
  "plus_payout NaN y = NaN"
| "plus_payout x NaN = NaN"
| "plus_payout PosInf NegInf = NaN"
| "plus_payout NegInf PosInf = NaN"
| "plus_payout PosInf y = PosInf"
| "plus_payout x PosInf = PosInf"
| "plus_payout NegInf y = NegInf"
| "plus_payout x NegInf = NegInf"
| "plus_payout (Finite a) (Finite b) = Finite (a + b)"

instance ..

end

text \<open>
  The rounding of float64. A finite float64 is a real number with a significand of 53
  bits, and every addition and subtraction returns the exact result rounded to the nearest
  such number, to the even significand in a tie. \<open>rne\<close> rounds to the nearest integer with
  ties to even; \<open>ulp_exponent x\<close> is the exponent of the spacing of float64 numbers at \<open>x\<close>
  (at a power of two it may be the exponent of the finer spacing below it, of which the
  power of two is a multiple as well). Overflow to infinity, subnormal numbers and the sign
  of zero are not modelled: the values are those of the normal range.
\<close>

definition rne :: "real \<Rightarrow> int" where
  "rne y = (let f = \<lfloor>y\<rfloor>; d = y - of_int f
            in if d < 1 / 2 then f else if 1 / 2 < d then f + 1
               else if even f then f else f + 1)"

definition pow2 :: "int \<Rightarrow> real" where
  "pow2 e = (if 0 \<le> e then 2 ^ nat e else 1 / 2 ^ nat (- e))"

definition ulp_exponent :: "real \<Rightarrow> int" where
  "ulp_exponent x =
     (if 1 \<le> \<bar>x\<bar> then bitlen \<lfloor>\<bar>x\<bar>\<rfloor> - 1 else - bitlen \<lfloor>1 / \<bar>x\<bar>\<rfloor>) - 52"

definition round_f64 :: "real \<Rightarrow> real" where
  "round_f64 x =
     (if x = 0 then 0
      else (let q = pow2 (ulp_exponent x) in of_int (rne (x / q)) * q))"

text \<open>
  A finite float64 with the arithmetic of the code: the sum and the difference are rounded.
  \<open>f64 x\<close> is the float64 that the literal \<open>x\<close> denotes.
\<close>

datatype float64 = Float64 real

instantiation float64 :: "{zero,plus,minus}"
begin

definition zero_float64 :: float64 where
  "zero_float64 = Float64 0"

fun plus_float64 :: "float64 \<Rightarrow> float64 \<Rightarrow> float64" where
  "plus_float64 (Float64 a) (Float64 b) = Float64 (round_f64 (a + b))"

fun minus_float64 :: "float64 \<Rightarrow> float64 \<Rightarrow> float64" where
  "minus_float64 (Float64 a) (Float64 b) = Float64 (round_f64 (a - b))"

instance ..

end

definition f64 :: "real \<Rightarrow> float64" where
  "f64 x = Float64 (round_f64 x)"

text \<open>
  \<open>np.empty(n)\<close>: storage for \<open>n\<close> values. numpy leaves the contents unspecified; the loops
  below take the array as an argument, so what they return is proved for any contents.
\<close>

definition np_empty :: "nat \<Rightarrow> 'a::zero list" where
  "np_empty n = replicate n 0"

text \<open>\<open>arr.sum()\<close> as numba compiles it: \<open>c = 0\<close>, then \<open>c += v\<close> for every element in order.\<close>

definition np_sum :: "'a::{zero,plus} list \<Rightarrow> 'a" where
  "np_sum arr = foldl (+) 0 arr"

subsection \<open>The pseudo-random generator\<close>

text \<open>
  \<open>reseed s\<close> is the state after \<open>np.random.seed(s)\<close>; \<open>randint g n\<close> is
  \<open>np.random.randint(0, n)\<close> in state \<open>g\<close>, the value drawn and the state after it.
\<close>

record 'g generator =
  reseed :: "int \<Rightarrow> 'g"
  randint :: "'g \<Rightarrow> nat \<Rightarrow> nat \<times> 'g"

text \<open>The contract of the bounded draw: a value below a positive bound.\<close>

definition generator_ok :: "'g generator \<Rightarrow> bool" where
  "generator_ok G = (\<forall>g n. 0 < n \<longrightarrow> fst (randint G g n) < n)"

text \<open>
  A small linear congruential generator, used where a statement is evaluated on concrete
  input. The state is the last number of the sequence; a draw takes its high-order bits.
\<close>

definition lcg :: "int generator" where
  "lcg = \<lparr>reseed = (\<lambda>s. s mod 2147483648),
          randint = (\<lambda>g n. (nat ((g div 65536) mod int n),
                           (1103515245 * g + 12345) mod 2147483648))\<rparr>"

text \<open>\<open>k\<close> successive draws below \<open>n\<close>, in order, and the state after the last one.\<close>

fun draws :: "'g generator \<Rightarrow> nat \<Rightarrow> nat \<Rightarrow> 'g \<Rightarrow> nat list \<times> 'g" where
  "draws G n 0 g = ([], g)"
| "draws G n (Suc k) g =
     (let (j, g1) = randint G g n;
          (js, g2) = draws G n k g1
      in (j # js, g2))"

text \<open>
  \<open>np.random.choice(a, size, replace=True)\<close> for an integer \<open>a\<close>: an array of \<open>size\<close> draws
  from \<open>range(a)\<close>. A negative size fails when the output array is allocated, an empty
  population at the first draw; no draw is made for \<open>size = 0\<close>.
\<close>

definition np_random_choice ::
  "'g generator \<Rightarrow> nat \<Rightarrow> int \<Rightarrow> 'g \<Rightarrow> (failure + nat list) \<times> 'g" where
  "np_random_choice G a sz g =
     (if sz < 0 then (Inl ValueError, g)
      else if a = 0 \<and> 0 < sz then (Inl ValueError, g)
      else (let (js, g') = draws G a (nat sz) g in (Inr js, g')))"

text \<open>The same call for an array \<open>a\<close>: each draw is an index into \<open>a\<close>, the element is stored.\<close>

definition np_random_choice_arr ::
  "'g generator \<Rightarrow> int list \<Rightarrow> int \<Rightarrow> 'g \<Rightarrow> (failure + int list) \<times> 'g" where
  "np_random_choice_arr G a sz g =
     (if sz < 0 then (Inl ValueError, g)
      else if a = [] \<and> 0 < sz then (Inl ValueError, g)
      else (let (js, g') = draws G (length a) (nat sz) g in (Inr (map (\<lambda>j. a ! j) js), g')))"

subsection \<open>The sampling functions\<close>

definition select_random_row ::
  "'g generator \<Rightarrow> 'a matrix \<Rightarrow> int \<Rightarrow> 'g \<Rightarrow> (failure + 'a matrix) \<times> 'g" where
  "select_random_row G data num_rows g =
     (let N_rows = length data in
      case np_random_choice G N_rows num_rows g of
        (Inl e, g') \<Rightarrow> (Inl e, g')
      | (Inr selected_rows, g') \<Rightarrow> (Inr (map (\<lambda>r. data ! r) selected_rows), g'))"

text \<open>
  \<open>data[row, col]\<close> in compiled code: a negative index counts from the end of the axis, and
  an index that is still outside the axis is read unchecked.
\<close>

definition col_index :: "nat \<Rightarrow> int \<Rightarrow> int" where
  "col_index K col = (if col < 0 then col + int K else col)"

definition getitem2 :: "'a matrix \<Rightarrow> nat \<Rightarrow> int \<Rightarrow> failure + 'a" where
  "getitem2 data row col =
     (if row < length data
      then (let c = col_index (length (data ! row)) col in
            if 0 \<le> c \<and> c < int (length (data ! row))
            then Inr (data ! row ! nat c)
            else Inl UncheckedRead)
      else Inl UncheckedRead)"

text \<open>The loop \<open>for row, col in enumerate(selected_cols): selected_elements[row] = data[row, col]\<close>.\<close>

fun fill_selected :: "'a matrix \<Rightarrow> (nat \<times> int) list \<Rightarrow> 'a list \<Rightarrow> failure + 'a list" where
  "fill_selected data [] selected_elements = Inr selected_elements"
| "fill_selected data ((row, col) # rest) selected_elements =
     (case getitem2 data row col of
        Inl e \<Rightarrow> Inl e
      | Inr v \<Rightarrow> fill_selected data rest (selected_elements[row := v]))"

definition select_random_col ::
  "'g generator \<Rightarrow> 'a::zero matrix \<Rightarrow> int list \<Rightarrow> 'g \<Rightarrow> (failure + 'a list) \<times> 'g" where
  "select_random_col G data num_cols g =
     (let N_rows = length data;
          selected_elements = np_empty N_rows
      in case np_random_choice_arr G num_cols (int N_rows) g of
           (Inl e, g') \<Rightarrow> (Inl e, g')
         | (Inr selected_cols, g') \<Rightarrow>
             (fill_selected data (enumerate 0 selected_cols) selected_elements, g'))"

subsection \<open>The terminal-profit engine\<close>

text \<open>The loop \<open>for i in range(iteration)\<close> of \<open>monte_carlo_sum\<close>, over the indices left to run.\<close>

fun mc_loop ::
  "'g generator \<Rightarrow> 'a::{zero,plus} matrix \<Rightarrow> int \<Rightarrow> int list \<Rightarrow> nat list \<Rightarrow> 'a list \<Rightarrow> 'g
     \<Rightarrow> (failure + 'a list) \<times> 'g" where
  "mc_loop G data batch cols [] profit_arr g = (Inr profit_arr, g)"
| "mc_loop G data batch cols (i # is) profit_arr g =
     (case select_random_row G data batch g of
        (Inl e, g1) \<Rightarrow> (Inl e, g1)
      | (Inr row_arr, g1) \<Rightarrow>
          (case select_random_col G row_arr cols g1 of
             (Inl e, g2) \<Rightarrow> (Inl e, g2)
           | (Inr element_arr, g2) \<Rightarrow>
               (let profit = np_sum element_arr
                in mc_loop G data batch cols is (profit_arr[i := profit]) g2)))"

text \<open>
  \<open>monte_carlo_sum(data, iteration, batch, cols)\<close>. It has no seed parameter: the first
  statement reseeds the generator with the constant 12345. \<open>np.empty(iteration)\<close> fails for
  a negative \<open>iteration\<close>.
\<close>

definition monte_carlo_sum ::
  "'g generator \<Rightarrow> 'a::{zero,plus} matrix \<Rightarrow> int \<Rightarrow> int \<Rightarrow> int list \<Rightarrow> 'g
     \<Rightarrow> (failure + 'a list) \<times> 'g" where
  "monte_carlo_sum G data iteration batch cols g =
     (let g0 = reseed G 12345 in
      if iteration < 0 then (Inl ValueError, g0)
      else mc_loop G data batch cols [0..<nat iteration] (np_empty (nat iteration)) g0)"

subsection \<open>The balance trajectories\<close>

text \<open>
  \<open>np.cumsum\<close>: the first element as it is, then each element added to the sum before it.
\<close>

fun cumsum_from :: "'a::plus \<Rightarrow> 'a list \<Rightarrow> 'a list" where
  "cumsum_from acc [] = []"
| "cumsum_from acc (x # xs) = (acc + x) # cumsum_from (acc + x) xs"

fun np_cumsum :: "'a::plus list \<Rightarrow> 'a list" where
  "np_cumsum [] = []"
| "np_cumsum (x # xs) = x # cumsum_from x xs"

text \<open>
  The loop of the notebook cell that fills \<open>timeseries_arr\<close>. It does not reseed: the draws
  continue from wherever the generator stands. The enabled columns are the literal
  \<open>np.array([0, 1, 2])\<close>.
\<close>

fun ts_loop ::
  "'g generator \<Rightarrow> 'a::{zero,plus} matrix \<Rightarrow> int \<Rightarrow> 'a \<Rightarrow> nat list \<Rightarrow> 'a matrix \<Rightarrow> 'g
     \<Rightarrow> (failure + 'a matrix) \<times> 'g" where
  "ts_loop G arr_mc n_bets_ts initial_balance [] timeseries_arr g = (Inr timeseries_arr, g)"
| "ts_loop G arr_mc n_bets_ts initial_balance (i # is) timeseries_arr g =
     (case select_random_row G arr_mc n_bets_ts g of
        (Inl e, g1) \<Rightarrow> (Inl e, g1)
      | (Inr row_arr, g1) \<Rightarrow>
          (case select_random_col G row_arr [0, 1, 2] g1 of
             (Inl e, g2) \<Rightarrow> (Inl e, g2)
           | (Inr element_arr, g2) \<Rightarrow>
               (let timeseries_balance = map (\<lambda>v. initial_balance + v) (np_cumsum element_arr)
                in ts_loop G arr_mc n_bets_ts initial_balance is
                     (timeseries_arr[i := timeseries_balance]) g2)))"

definition timeseries_arr ::
  "'g generator \<Rightarrow> 'a::{zero,plus} matrix \<Rightarrow> int \<Rightarrow> int \<Rightarrow> 'a \<Rightarrow> 'g
     \<Rightarrow> (failure + 'a matrix) \<times> 'g" where
  "timeseries_arr G arr_mc n_iteration n_bets_ts initial_balance g =
     (if n_iteration < 0 \<or> n_bets_ts < 0 then (Inl ValueError, g)
      else ts_loop G arr_mc n_bets_ts initial_balance [0..<nat n_iteration]
             (replicate (nat n_iteration) (np_empty (nat n_bets_ts))) g)"

subsection \<open>Percentiles\<close>

text \<open>
  \<open>np.percentile\<close> is numpy's, and its code is not in the repository. The notebook calls it
  with no \<open>method\<close> argument, so numpy's default applies, which the spec (4.5) gives as
  linear interpolation between order statistics. The four definitions below follow numpy's
  steps for that method, over real numbers.
\<close>

text \<open>
  Modelled from the spec: the interpolation step of \<open>np.percentile\<close>, which is missing from
  the sources. numpy computes \<open>a + (b - a) * t\<close>, and \<open>b - (b - a) * (1 - t)\<close> from \<open>t = 1/2\<close> on.
\<close>

definition np_lerp :: "real \<Rightarrow> real \<Rightarrow> real \<Rightarrow> real" where
  "np_lerp a b t = (if 1 / 2 \<le> t then b - (b - a) * (1 - t) else a + (b - a) * t)"

text \<open>
  Modelled from the spec: the value of \<open>np.percentile\<close> at a virtual index into the sorted
  values, missing from the sources. The integer part of the index and the index after it
  (clipped to the last) select two neighbours; the fractional part interpolates between
  them.
\<close>

definition interpolate :: "real list \<Rightarrow> real \<Rightarrow> real" where
  "interpolate arr virtual_index =
     (let previous_index = nat \<lfloor>virtual_index\<rfloor>;
          next_index = min (previous_index + 1) (length arr - 1);
          gamma = virtual_index - real previous_index
      in np_lerp (arr ! previous_index) (arr ! next_index) gamma)"

text \<open>
  Modelled from the spec: the percentile \<open>q\<close> of the values \<open>a\<close> by the linear method of
  \<open>np.percentile\<close>, missing from the sources. The values are sorted and the virtual index
  of the percentile among \<open>n\<close> values is \<open>(n - 1) * q / 100\<close>.
\<close>

definition linear_percentile :: "real list \<Rightarrow> real \<Rightarrow> real" where
  "linear_percentile a q =
     (let arr = sort a;
          virtual_index = real (length arr - 1) * (q / 100)
      in interpolate arr virtual_index)"


definition column :: "'a matrix \<Rightarrow> nat \<Rightarrow> 'a list" where
  "column arr t = map (\<lambda>row. row ! t) arr"

text \<open>
  \<open>quantiles = np.percentile(timeseries_arr, quantiles_arr, axis=0)\<close>, the call of the
  notebook, with numpy's handling of the axis: one row per requested percentile, one entry
  per time step, each the percentile of that time step's column.
\<close>

definition quantiles :: "real matrix \<Rightarrow> real list \<Rightarrow> failure + real matrix" where
  "quantiles arr quantiles_arr =
     (if list_ex (\<lambda>q. q < 0 \<or> 100 < q) quantiles_arr then Inl ValueError
      else if arr = [] then Inl NoData
      else Inr (map (\<lambda>q. map (\<lambda>t. linear_percentile (column arr t) q) [0..<length (hd arr)])
                  quantiles_arr))"




subsection \<open>The payout matrix\<close>

text \<open>
  A row of the data frame \<open>df_mc_set\<close>: the winner code of the match, the odds columns
  \<open>{bookie}_1x2_{outcome}_{time}\<close> and the payout columns \<open>betwin{outcome}_{time}\<close> the
  notebook adds, both keyed by outcome and time. A payout column that was never assigned
  is absent.
\<close>

record mc_row =
  winner_code_sofascore :: string
  odds_column :: "string \<times> string \<Rightarrow> real"
  betwin :: "string \<times> string \<rightharpoonup> real"

definition outcomes :: "string list" where
  "outcomes = [''1'', ''X'', ''2'']"

definition times_list :: "string list" where
  "times_list = [''closed'']"

text \<open>Assigning a value to one payout column of one row.\<close>

definition assign :: "string \<times> string \<Rightarrow> real \<Rightarrow> mc_row \<Rightarrow> mc_row" where
  "assign col v r = r\<lparr>betwin := (betwin r)(col \<mapsto> v)\<rparr>"

text \<open>\<open>df_mc_set[f"betwin{outcome}_{time}"] = -stake_per_game\<close> for every outcome and time.\<close>

definition preallocate :: "real \<Rightarrow> mc_row list \<Rightarrow> mc_row list" where
  "preallocate stake_per_game df_mc_set =
     fold (\<lambda>outcome. fold (\<lambda>time. map (assign (outcome, time) (- stake_per_game))) times_list)
       outcomes df_mc_set"

text \<open>
  The body of the second loop for one row: \<open>win_condition\<close> compares the winner code with
  the outcome, \<open>winnings\<close> is \<open>stake_per_game * (odds - 1)\<close>, and
  \<open>df_mc_set.loc[win_condition, column] = winnings\<close> overwrites the payout column of the
  outcome in the rows that satisfy the condition.
\<close>

definition loc_assign :: "real \<Rightarrow> string \<Rightarrow> string \<Rightarrow> mc_row \<Rightarrow> mc_row" where
  "loc_assign stake_per_game outcome time r =
     (let win_condition = (winner_code_sofascore r = outcome);
          winnings = stake_per_game * (odds_column r (outcome, time) - 1)
      in if win_condition then assign (outcome, time) winnings r else r)"

definition populate :: "real \<Rightarrow> mc_row list \<Rightarrow> mc_row list" where
  "populate stake_per_game df_mc_set =
     fold (\<lambda>outcome. fold (\<lambda>time. map (loc_assign stake_per_game outcome time)) times_list)
       outcomes df_mc_set"

text \<open>\<open>df[columns].to_numpy()\<close>: the named columns of every row; a missing column is a \<open>KeyError\<close>.\<close>

definition to_numpy :: "mc_row list \<Rightarrow> (string \<times> string) list \<Rightarrow> failure + real matrix" where
  "to_numpy df columns =
     (case those (map (\<lambda>r. those (map (betwin r) columns)) df) of
        None \<Rightarrow> Inl KeyError
      | Some m \<Rightarrow> Inr m)"

definition arr_mc :: "real \<Rightarrow> mc_row list \<Rightarrow> failure + real matrix" where
  "arr_mc stake_per_game df_mc_set =
     to_numpy (populate stake_per_game (preallocate stake_per_game df_mc_set))
       [(''1'', ''closed''), (''X'', ''closed''), (''2'', ''closed'')]"

subsection \<open>What a run selects\<close>

text \<open>
  The cell that \<open>data[row, col]\<close> reads when the index is inside the row.
\<close>

definition cell :: "'a matrix \<Rightarrow> nat \<Rightarrow> int \<Rightarrow> 'a" where
  "cell data r c = data ! r ! nat (col_index (length (data ! r)) c)"

text \<open>
  The payouts of one run of \<open>B\<close> bets that starts in generator state \<open>g\<close>: \<open>B\<close> row indices are
  drawn below the number of rows, then \<open>B\<close> positions below the number of enabled columns;
  bet \<open>j\<close> pays the cell of its row in the enabled column at its position. The second
  component is the generator state after the run.
\<close>

definition selected_payouts ::
  "'g generator \<Rightarrow> 'a matrix \<Rightarrow> nat \<Rightarrow> int list \<Rightarrow> 'g \<Rightarrow> 'a list \<times> 'g" where
  "selected_payouts G data B cols g =
     (let (rows, g1) = draws G (length data) B g;
          (picks, g2) = draws G (length cols) B g1
      in (map2 (\<lambda>r p. cell data r (cols ! p)) rows picks, g2))"

text \<open>The generator state in which run \<open>i\<close> starts, when run \<open>0\<close> starts in state \<open>g\<close>.\<close>

definition run_state ::
  "'g generator \<Rightarrow> 'a matrix \<Rightarrow> nat \<Rightarrow> int list \<Rightarrow> 'g \<Rightarrow> nat \<Rightarrow> 'g" where
  "run_state G data B cols g i = ((\<lambda>s. snd (selected_payouts G data B cols s)) ^^ i) g"

subsection \<open>Rejected arguments\<close>

text \<open>
  The arguments for which \<open>monte_carlo_sum\<close> raises \<open>ValueError\<close>: a negative iteration count,
  or at least one iteration with a negative batch size, or with a positive batch size and
  no rows or no enabled columns.
\<close>

definition rejected :: "'a matrix \<Rightarrow> int \<Rightarrow> int \<Rightarrow> int list \<Rightarrow> bool" where
  "rejected data iteration batch cols =
     (iteration < 0 \<or>
      (0 < iteration \<and> (batch < 0 \<or> (0 < batch \<and> (data = [] \<or> cols = [])))))"

section \<open>Reproducibility\<close>

text \<open>
  Claim C2. Two calls of \<open>monte_carlo_sum\<close> with the same arguments return the same outcome
  (the same profit array, or the same failure), whatever the state of the generator was
  before each call.
\<close>

theorem monte_carlo_sum_deterministic:
  "fst (monte_carlo_sum G data iteration batch cols g1) =
   fst (monte_carlo_sum G data iteration batch cols g2)"
  by (simp add: monte_carlo_sum_def Let_def)

text \<open>
  Claim C10. \<open>monte_carlo_sum\<close> reseeds the shared generator with the constant 12345 before
  anything else: the outcome together with the generator state it leaves behind is the same
  from any two states at entry, and a call with no iteration leaves the generator in exactly
  the state \<open>np.random.seed(12345)\<close> produces.
\<close>

theorem monte_carlo_sum_reseeds:
  "monte_carlo_sum G data iteration batch cols g1 =
   monte_carlo_sum G data iteration batch cols g2
   \<and> monte_carlo_sum G data 0 batch cols g1 = (Inr [], reseed G 12345)"
  by (simp add: monte_carlo_sum_def Let_def np_empty_def)

section \<open>The runs of the engine\<close>

subsection \<open>Draws\<close>

lemma lcg_ok: "generator_ok lcg"
  by (simp add: generator_ok_def lcg_def nat_less_iff)

lemma draws_length_eq: "draws G n k g = (js, g') \<Longrightarrow> length js = k"
  by (induction k arbitrary: g js g') (auto simp: Let_def split: prod.splits)

lemma draws_length: "length (fst (draws G n k g)) = k"
  by (cases "draws G n k g") (simp add: draws_length_eq)

lemma draws_bound:
  "generator_ok G \<Longrightarrow> 0 < n \<Longrightarrow> j \<in> set (fst (draws G n k g)) \<Longrightarrow> j < n"
proof (induction k arbitrary: g)
  case 0
  then show ?case by simp
next
  case (Suc k)
  obtain a g1 where r: "randint G g n = (a, g1)" by (cases "randint G g n")
  obtain js g2 where d: "draws G n k g1 = (js, g2)" by (cases "draws G n k g1")
  from Suc.prems(1,2) r have "a < n"
    unfolding generator_ok_def by (metis fst_conv)
  moreover have "j \<in> set js \<Longrightarrow> j < n"
    using Suc.IH [OF Suc.prems(1,2), of g1] d by simp
  ultimately show ?case using Suc.prems(3) r d by auto
qed

lemma fill_selected_enumerate:
  assumes "i + length cs \<le> length arr" "length arr \<le> length data"
    and "\<And>j. j < length cs \<Longrightarrow>
           0 \<le> col_index (length (data ! (i + j))) (cs ! j) \<and>
           col_index (length (data ! (i + j))) (cs ! j) < int (length (data ! (i + j)))"
  shows "fill_selected data (enumerate i cs) arr =
         Inr (take i arr @ map (\<lambda>(r, c). cell data r c) (enumerate i cs) @ drop (i + length cs) arr)"
  using assms
proof (induction cs arbitrary: i arr)
  case Nil
  then show ?case by simp
next
  case (Cons c cs)
  have i: "i < length arr" "i < length data" using Cons.prems(1,2) by auto
  have rd: "getitem2 data i c = Inr (cell data i c)"
    using Cons.prems(3) [of 0] i by (simp add: getitem2_def cell_def Let_def)
  have IH: "fill_selected data (enumerate (Suc i) cs) (arr[i := cell data i c]) =
        Inr (take (Suc i) (arr[i := cell data i c]) @ map (\<lambda>(r, c). cell data r c) (enumerate (Suc i) cs)
              @ drop (Suc i + length cs) (arr[i := cell data i c]))"
  proof (rule Cons.IH)
    show "Suc i + length cs \<le> length (arr[i := cell data i c])" using Cons.prems(1) by simp
    show "length (arr[i := cell data i c]) \<le> length data" using Cons.prems(2) by simp
    fix j assume "j < length cs"
    then show "0 \<le> col_index (length (data ! (Suc i + j))) (cs ! j) \<and>
           col_index (length (data ! (Suc i + j))) (cs ! j) < int (length (data ! (Suc i + j)))"
      using Cons.prems(3) [of "Suc j"] by simp
  qed
  have t: "take (Suc i) (arr[i := cell data i c]) = take i arr @ [cell data i c]"
    using i by (simp add: take_Suc_conv_app_nth)
  show ?case using rd IH t by simp
qed


lemma select_random_row_ok:
  assumes "0 \<le> B" "data \<noteq> [] \<or> B = 0"
  shows "select_random_row G data B g =
         (Inr (map (\<lambda>r. data ! r) (fst (draws G (length data) (nat B) g))),
          snd (draws G (length data) (nat B) g))"
  using assms
  by (auto simp: select_random_row_def np_random_choice_def Let_def split: prod.splits)

lemma col_index_range:
  "- int K \<le> c \<Longrightarrow> c < int K \<Longrightarrow> 0 \<le> col_index K c \<and> col_index K c < int K"
  by (simp add: col_index_def)

lemma select_random_col_ok:
  fixes row_arr :: "'a::zero matrix"
  assumes ok: "generator_ok G"
    and rows: "\<forall>row\<in>set row_arr. length row = K"
    and ne: "cols \<noteq> [] \<or> row_arr = []"
    and rng: "\<forall>c\<in>set cols. - int K \<le> c \<and> c < int K"
  shows "select_random_col G row_arr cols g =
         (Inr (map2 (\<lambda>row p. row ! nat (col_index K (cols ! p))) row_arr
                 (fst (draws G (length cols) (length row_arr) g))),
          snd (draws G (length cols) (length row_arr) g))"
proof -
  let ?N = "length row_arr"
  obtain picks g2 where d: "draws G (length cols) ?N g = (picks, g2)"
    by (cases "draws G (length cols) ?N g")
  have len: "length picks = ?N" using d by (rule draws_length_eq)
  have pk: "p < length cols" if "p \<in> set picks" for p
  proof -
    from that len have "row_arr \<noteq> []" by auto
    with ne have "0 < length cols" by auto
    with ok that d show ?thesis using draws_bound [of G "length cols" p ?N g] by simp
  qed
  let ?sel = "map (\<lambda>j. cols ! j) picks"
  have ch: "np_random_choice_arr G cols (int ?N) g = (Inr ?sel, g2)"
    using ne d by (auto simp: np_random_choice_arr_def)
  have fs: "fill_selected row_arr (enumerate 0 ?sel) (np_empty ?N) =
            Inr (take 0 (np_empty ?N) @ map (\<lambda>(r, c). cell row_arr r c) (enumerate 0 ?sel)
                 @ drop (0 + length ?sel) (np_empty ?N :: 'a list))"
  proof (rule fill_selected_enumerate)
    show "0 + length ?sel \<le> length (np_empty ?N :: 'a list)" by (simp add: len np_empty_def)
    show "length (np_empty ?N :: 'a list) \<le> length row_arr" by (simp add: np_empty_def)
    fix j assume j: "j < length ?sel"
    then have "picks ! j \<in> set picks" by simp
    then have "cols ! (picks ! j) \<in> set cols" using pk by simp
    moreover have "length (row_arr ! (0 + j)) = K" using rows j len by simp
    ultimately show "0 \<le> col_index (length (row_arr ! (0 + j))) (?sel ! j) \<and>
        col_index (length (row_arr ! (0 + j))) (?sel ! j) < int (length (row_arr ! (0 + j)))"
      using rng j col_index_range [of K "cols ! (picks ! j)"] by simp
  qed
  have eq: "map (\<lambda>(r, c). cell row_arr r c) (enumerate 0 ?sel) =
            map2 (\<lambda>row p. row ! nat (col_index K (cols ! p))) row_arr picks"
  proof (rule nth_equalityI)
    show "length (map (\<lambda>(r, c). cell row_arr r c) (enumerate 0 ?sel)) =
          length (map2 (\<lambda>row p. row ! nat (col_index K (cols ! p))) row_arr picks)"
      by (simp add: len)
  next
    fix j assume "j < length (map (\<lambda>(r, c). cell row_arr r c) (enumerate 0 ?sel))"
    then have j: "j < ?N" by (simp add: len)
    then have "length (row_arr ! j) = K" using rows by simp
    then show "map (\<lambda>(r, c). cell row_arr r c) (enumerate 0 ?sel) ! j =
               map2 (\<lambda>row p. row ! nat (col_index K (cols ! p))) row_arr picks ! j"
      using j len by (simp add: nth_enumerate_eq cell_def)
  qed
  show ?thesis
    using ch fs eq d by (simp add: select_random_col_def Let_def len np_empty_def)
qed


lemma run_body:
  fixes data :: "'a::zero matrix"
  assumes ok: "generator_ok G"
    and rows: "\<forall>row\<in>set data. length row = K"
    and B: "0 \<le> B"
    and ne: "data \<noteq> [] \<or> B = 0"
    and cne: "cols \<noteq> [] \<or> B = 0"
    and rng: "\<forall>c\<in>set cols. - int K \<le> c \<and> c < int K"
  shows "\<exists>row_arr g1. select_random_row G data B g = (Inr row_arr, g1) \<and>
           select_random_col G row_arr cols g1 =
             (Inr (fst (selected_payouts G data (nat B) cols g)),
              snd (selected_payouts G data (nat B) cols g))"
proof -
  obtain rs g1 where d1: "draws G (length data) (nat B) g = (rs, g1)"
    by (cases "draws G (length data) (nat B) g")
  obtain picks g2 where d2: "draws G (length cols) (nat B) g1 = (picks, g2)"
    by (cases "draws G (length cols) (nat B) g1")
  have l1: "length rs = nat B" using d1 by (rule draws_length_eq)
  have l2: "length picks = nat B" using d2 by (rule draws_length_eq)
  have rb: "r < length data" if "r \<in> set rs" for r
  proof -
    from that l1 have "B \<noteq> 0" by auto
    with ne have "0 < length data" by auto
    with ok that d1 show ?thesis using draws_bound [of G "length data" r "nat B" g] by simp
  qed
  let ?row_arr = "map (\<lambda>r. data ! r) rs"
  have sr: "select_random_row G data B g = (Inr ?row_arr, g1)"
    using select_random_row_ok [OF B ne, of G g] d1 by simp
  have rows': "\<forall>row\<in>set ?row_arr. length row = K"
    using rows rb by auto
  have cne': "cols \<noteq> [] \<or> ?row_arr = []" using cne l1 by auto
  have sc: "select_random_col G ?row_arr cols g1 =
         (Inr (map2 (\<lambda>row p. row ! nat (col_index K (cols ! p))) ?row_arr picks), g2)"
    using select_random_col_ok [OF ok rows' cne' rng, of g1] d2 l1 by simp
  have eq: "map2 (\<lambda>row p. row ! nat (col_index K (cols ! p))) ?row_arr picks =
            map2 (\<lambda>r p. cell data r (cols ! p)) rs picks"
  proof (rule nth_equalityI)
    show "length (map2 (\<lambda>row p. row ! nat (col_index K (cols ! p))) ?row_arr picks) =
          length (map2 (\<lambda>r p. cell data r (cols ! p)) rs picks)" by simp
  next
    fix j assume "j < length (map2 (\<lambda>row p. row ! nat (col_index K (cols ! p))) ?row_arr picks)"
    then have j: "j < length rs" "j < length picks" by simp_all
    then have "rs ! j < length data" using rb by simp
    then have "length (data ! (rs ! j)) = K" using rows by simp
    then show "map2 (\<lambda>row p. row ! nat (col_index K (cols ! p))) ?row_arr picks ! j =
               map2 (\<lambda>r p. cell data r (cols ! p)) rs picks ! j"
      using j by (simp add: cell_def)
  qed
  have sp: "selected_payouts G data (nat B) cols g =
            (map2 (\<lambda>r p. cell data r (cols ! p)) rs picks, g2)"
    using d1 d2 by (simp add: selected_payouts_def)
  show ?thesis using sr sc eq sp by simp
qed

lemma run_state_Suc:
  "run_state G data B cols g (Suc i) =
   run_state G data B cols (snd (selected_payouts G data B cols g)) i"
  unfolding run_state_def funpow.simps o_apply by (rule funpow_swap1)

lemma mc_loop_runs:
  fixes data :: "'a::{zero,plus} matrix"
  assumes ok: "generator_ok G"
    and rows: "\<forall>row\<in>set data. length row = K"
    and B: "0 \<le> B"
    and ne: "data \<noteq> [] \<or> B = 0"
    and cne: "cols \<noteq> [] \<or> B = 0"
    and rng: "\<forall>c\<in>set cols. - int K \<le> c \<and> c < int K"
  shows "i + k \<le> length arr \<Longrightarrow>
         mc_loop G data B cols [i..<i + k] arr g =
           (Inr (take i arr @
                 map (\<lambda>j. np_sum (fst (selected_payouts G data (nat B) cols
                                          (run_state G data (nat B) cols g j)))) [0..<k] @
                 drop (i + k) arr),
            run_state G data (nat B) cols g k)"
proof (induction k arbitrary: i arr g)
  case 0
  then show ?case by (simp add: run_state_def)
next
  case (Suc k)
  let ?p = "np_sum (fst (selected_payouts G data (nat B) cols g))"
  let ?g' = "snd (selected_payouts G data (nat B) cols g)"
  let ?f = "\<lambda>s j. np_sum (fst (selected_payouts G data (nat B) cols
                                          (run_state G data (nat B) cols s j)))"
  obtain row_arr g1 where b: "select_random_row G data B g = (Inr row_arr, g1)"
      "select_random_col G row_arr cols g1 = (Inr (fst (selected_payouts G data (nat B) cols g)), ?g')"
    using run_body [OF ok rows B ne cne rng, of g] by blast
  have i: "i < length arr" using Suc.prems by simp
  have up: "[i..<i + Suc k] = i # [Suc i..<Suc i + k]"
    by (simp add: upt_conv_Cons)
  have IH: "mc_loop G data B cols [Suc i..<Suc i + k] (arr[i := ?p]) ?g' =
           (Inr (take (Suc i) (arr[i := ?p]) @ map (?f ?g') [0..<k] @ drop (Suc i + k) (arr[i := ?p])),
            run_state G data (nat B) cols ?g' k)"
    using Suc.prems by (intro Suc.IH) simp
  have t: "take (Suc i) (arr[i := ?p]) = take i arr @ [?p]"
    using i by (simp add: take_Suc_conv_app_nth)
  have m: "map (?f g) [0..<Suc k] = ?p # map (?f ?g') [0..<k]"
    unfolding map_upt_Suc by (simp add: run_state_Suc) (simp add: run_state_def)
  have "mc_loop G data B cols [i..<i + Suc k] arr g =
        mc_loop G data B cols [Suc i..<Suc i + k] (arr[i := ?p]) ?g'"
    unfolding up using b by (simp add: Let_def)
  then show ?case
    unfolding IH t m by (simp add: run_state_Suc)
qed

subsection \<open>The whole engine\<close>

lemma monte_carlo_sum_runs:
  fixes data :: "'a::{zero,plus} matrix"
  assumes "generator_ok G"
    and "\<forall>row\<in>set data. length row = K"
    and "0 \<le> iteration" and "0 \<le> batch"
    and "data \<noteq> [] \<or> batch = 0"
    and "cols \<noteq> [] \<or> batch = 0"
    and "\<forall>c\<in>set cols. - int K \<le> c \<and> c < int K"
  shows "monte_carlo_sum G data iteration batch cols g =
           (Inr (map (\<lambda>i. np_sum (fst (selected_payouts G data (nat batch) cols
                                       (run_state G data (nat batch) cols (reseed G 12345) i))))
                   [0..<nat iteration]),
            run_state G data (nat batch) cols (reseed G 12345) (nat iteration))"
proof -
  let ?n = "nat iteration"
  have "mc_loop G data batch cols [0..<0 + ?n] (np_empty ?n) (reseed G 12345) =
          (Inr (take 0 (np_empty ?n) @
                map (\<lambda>j. np_sum (fst (selected_payouts G data (nat batch) cols
                                  (run_state G data (nat batch) cols (reseed G 12345) j)))) [0..<?n] @
                drop (0 + ?n) (np_empty ?n)),
           run_state G data (nat batch) cols (reseed G 12345) ?n)"
    using assms(1,2,4,5,6,7) by (rule mc_loop_runs) (simp add: np_empty_def)
  then show ?thesis
    using assms(3) by (simp add: monte_carlo_sum_def Let_def np_empty_def)
qed

lemma selected_payouts_length:
  "length (fst (selected_payouts G data B cols s)) = B"
proof -
  obtain rs g1 where d1: "draws G (length data) B s = (rs, g1)"
    by (cases "draws G (length data) B s")
  obtain picks g2 where d2: "draws G (length cols) B g1 = (picks, g2)"
    by (cases "draws G (length cols) B g1")
  show ?thesis
    using d1 d2 draws_length_eq [OF d1] draws_length_eq [OF d2]
    by (simp add: selected_payouts_def)
qed

lemma draws_below_one:
  assumes "generator_ok G"
  shows "fst (draws G 1 k g) = replicate k 0"
proof (rule replicate_eqI)
  show "length (fst (draws G 1 k g)) = k" by (rule draws_length)
next
  fix y assume "y \<in> set (fst (draws G 1 k g))"
  then have "y < 1" using draws_bound [OF assms, of 1 y k g] by simp
  then show "y = 0" by simp
qed

lemma map2_replicate:
  "length xs = n \<Longrightarrow> map2 f xs (replicate n c) = map (\<lambda>x. f x c) xs"
  by (induction xs arbitrary: n) auto

lemma singleton_payouts:
  assumes "generator_ok G"
  shows "fst (selected_payouts G data B [k] g) =
         map (\<lambda>r. cell data r k) (fst (draws G (length data) B g))"
proof -
  obtain rs g1 where d1: "draws G (length data) B g = (rs, g1)"
    by (cases "draws G (length data) B g")
  obtain picks g2 where d2: "draws G 1 B g1 = (picks, g2)"
    by (cases "draws G 1 B g1")
  have "picks = replicate B 0" using draws_below_one [OF assms, of B g1] d2 by simp
  moreover have "length rs = B" using d1 by (rule draws_length_eq)
  ultimately show ?thesis
    using d1 d2 by (simp add: selected_payouts_def map2_replicate)
qed

subsection \<open>Failures\<close>

lemma getitem2_no_ValueError: "getitem2 data row col \<noteq> Inl ValueError"
  by (simp add: getitem2_def Let_def)

lemma fill_selected_no_ValueError: "fill_selected data ps arr \<noteq> Inl ValueError"
proof (induction ps arbitrary: arr)
  case Nil
  then show ?case by simp
next
  case (Cons p ps)
  obtain row col where p: "p = (row, col)" by (cases p)
  show ?case
    using Cons.IH getitem2_no_ValueError [of data row col]
    by (cases "getitem2 data row col") (simp_all add: p)
qed

lemma select_random_row_cases:
  "select_random_row G data n g =
     (if n < 0 \<or> (data = [] \<and> 0 < n) then (Inl ValueError, g)
      else (Inr (map (\<lambda>r. data ! r) (fst (draws G (length data) (nat n) g))),
            snd (draws G (length data) (nat n) g)))"
  by (auto simp: select_random_row_def np_random_choice_def Let_def split: prod.splits)

lemma select_random_col_ValueError:
  "fst (select_random_col G data cols g) = Inl ValueError \<longleftrightarrow> cols = [] \<and> data \<noteq> []"
proof (cases "cols = [] \<and> data \<noteq> []")
  case True
  then show ?thesis
    by (simp add: select_random_col_def np_random_choice_arr_def Let_def)
next
  case False
  obtain js g' where d: "draws G (length cols) (length data) g = (js, g')"
    by (cases "draws G (length cols) (length data) g")
  from False have "\<not> (cols = [] \<and> 0 < int (length data))" by auto
  then have "np_random_choice_arr G cols (int (length data)) g =
        (Inr (map (\<lambda>j. cols ! j) js), g')"
    using d by (simp add: np_random_choice_arr_def)
  then show ?thesis
    using False
    by (auto simp: select_random_col_def Let_def fill_selected_no_ValueError)
qed

lemma mc_loop_ValueError:
  fixes data :: "'a::{zero,plus} matrix"
  shows "fst (mc_loop G data batch cols is arr g) = Inl ValueError \<longleftrightarrow>
         is \<noteq> [] \<and> (batch < 0 \<or> (0 < batch \<and> (data = [] \<or> cols = [])))"
proof (induction "is" arbitrary: arr g)
  case Nil
  then show ?case by simp
next
  case (Cons i "is")
  show ?case
  proof (cases "batch < 0 \<or> (data = [] \<and> 0 < batch)")
    case True
    then have "select_random_row G data batch g = (Inl ValueError, g)"
      by (simp add: select_random_row_cases)
    then show ?thesis using True by auto
  next
    case False
    let ?rows = "map (\<lambda>r. data ! r) (fst (draws G (length data) (nat batch) g))"
    let ?g1 = "snd (draws G (length data) (nat batch) g)"
    have sr: "select_random_row G data batch g = (Inr ?rows, ?g1)"
      using False by (simp add: select_random_row_cases)
    have len: "length ?rows = nat batch" by (simp add: draws_length)
    obtain res g2 where sc: "select_random_col G ?rows cols ?g1 = (res, g2)"
      by (cases "select_random_col G ?rows cols ?g1")
    have "?rows = [] \<longleftrightarrow> length ?rows = 0" by (simp only: length_0_conv)
    then have ne: "?rows \<noteq> [] \<longleftrightarrow> 0 < batch" unfolding len by auto
    have v: "res = Inl ValueError \<longleftrightarrow> cols = [] \<and> 0 < batch"
      using select_random_col_ValueError [of G ?rows cols ?g1] sc unfolding ne by simp
    show ?thesis
    proof (cases res)
      case (Inl e)
      then have "fst (mc_loop G data batch cols (i # is) arr g) = Inl e"
        using sr sc by simp
      then show ?thesis using v Inl False by auto
    next
      case (Inr element_arr)
      then have "mc_loop G data batch cols (i # is) arr g =
                 mc_loop G data batch cols is (arr[i := np_sum element_arr]) g2"
        using sr sc by (simp add: Let_def)
      moreover have "\<not> (cols = [] \<and> 0 < batch)" using v Inr by simp
      ultimately show ?thesis using Cons.IH [of "arr[i := np_sum element_arr]" g2] False
        by auto
    qed
  qed
qed

lemma mc_loop_empty_batch:
  fixes data :: "'a::{zero,plus} matrix"
  shows "i + k \<le> length arr \<Longrightarrow>
         mc_loop G data 0 cols [i..<i + k] arr g =
           (Inr (take i arr @ replicate k 0 @ drop (i + k) arr), g)"
proof (induction k arbitrary: i arr)
  case 0
  then show ?case by simp
next
  case (Suc k)
  have sr: "select_random_row G data 0 g = (Inr [], g)"
    by (simp add: select_random_row_cases)
  have sc: "select_random_col G ([] :: 'a matrix) cols g = (Inr [], g)"
    by (simp add: select_random_col_def np_random_choice_arr_def np_empty_def)
  have i: "i < length arr" using Suc.prems by simp
  have up: "[i..<i + Suc k] = i # [Suc i..<Suc i + k]"
    by (simp add: upt_conv_Cons)
  have IH: "mc_loop G data 0 cols [Suc i..<Suc i + k] (arr[i := 0]) g =
           (Inr (take (Suc i) (arr[i := 0]) @ replicate k 0 @ drop (Suc i + k) (arr[i := 0])), g)"
    using Suc.prems by (intro Suc.IH) simp
  have t: "take (Suc i) (arr[i := 0]) = take i arr @ [0]"
    using i by (simp add: take_Suc_conv_app_nth)
  have "mc_loop G data 0 cols [i..<i + Suc k] arr g =
        mc_loop G data 0 cols [Suc i..<Suc i + k] (arr[i := 0]) g"
    unfolding up using sr sc by (simp add: Let_def np_sum_def)
  then show ?case
    unfolding IH t by (simp add: replicate_app_Cons_same)
qed

subsection \<open>Sums with NaN\<close>

lemma plus_NaN: "x + NaN = NaN" "NaN + x = NaN"
  by (cases x; simp)+

lemma foldl_NaN: "foldl (+) NaN xs = NaN"
  by (induction xs) (simp_all add: plus_NaN)

lemma np_sum_NaN: "NaN \<in> set xs \<Longrightarrow> np_sum xs = NaN"
proof -
  have "NaN \<in> set xs \<Longrightarrow> foldl (+) a xs = NaN" for a
  proof (induction xs arbitrary: a)
    case Nil
    then show ?case by simp
  next
    case (Cons x xs)
    show ?case
    proof (cases "x = NaN")
      case True
      then show ?thesis by (simp add: plus_NaN foldl_NaN)
    next
      case False
      with Cons.prems have "NaN \<in> set xs" by simp
      then show ?thesis using Cons.IH by simp
    qed
  qed
  then show "NaN \<in> set xs \<Longrightarrow> np_sum xs = NaN" by (simp add: np_sum_def)
qed

subsection \<open>Trajectories\<close>

lemma cumsum_from_length: "length (cumsum_from acc xs) = length xs"
  by (induction xs arbitrary: acc) simp_all

lemma np_cumsum_length: "length (np_cumsum xs) = length xs"
  by (cases xs) (simp_all add: cumsum_from_length)

lemma cumsum_from_nth:
  "j < length xs \<Longrightarrow> cumsum_from a xs ! j = foldl (+) a (take (Suc j) xs)"
proof (induction xs arbitrary: a j)
  case Nil
  then show ?case by simp
next
  case (Cons x xs)
  then show ?case by (cases j) simp_all
qed

lemma np_cumsum_nth:
  fixes xs :: "'a::{zero,plus} list"
  assumes "j < length xs" and "0 + hd xs = hd xs"
  shows "np_cumsum xs ! j = np_sum (take (Suc j) xs)"
proof (cases xs)
  case Nil
  then show ?thesis using assms by simp
next
  case (Cons x ys)
  show ?thesis
  proof (cases j)
    case 0
    then show ?thesis using Cons assms(2) by (simp add: np_sum_def)
  next
    case (Suc i)
    then have "i < length ys" using assms(1) Cons by simp
    then show ?thesis using Cons Suc assms(2) by (simp add: np_sum_def cumsum_from_nth)
  qed
qed

lemma selected_payouts_cells:
  assumes ok: "generator_ok G"
    and rows: "\<forall>row\<in>set data. length row = K"
    and ne: "data \<noteq> [] \<or> B = 0"
    and cne: "cols \<noteq> [] \<or> B = 0"
    and rng: "\<forall>c\<in>set cols. - int K \<le> c \<and> c < int K"
    and x: "x \<in> set (fst (selected_payouts G data B cols g))"
  shows "\<exists>row\<in>set data. x \<in> set row"
proof -
  obtain rs g1 where d1: "draws G (length data) B g = (rs, g1)"
    by (cases "draws G (length data) B g")
  obtain picks g2 where d2: "draws G (length cols) B g1 = (picks, g2)"
    by (cases "draws G (length cols) B g1")
  have sp: "fst (selected_payouts G data B cols g) = map2 (\<lambda>r p. cell data r (cols ! p)) rs picks"
    using d1 d2 by (simp add: selected_payouts_def)
  from x obtain r p where rp: "(r, p) \<in> set (zip rs picks)" "x = cell data r (cols ! p)"
    unfolding sp by auto
  have r: "r \<in> set rs" and p: "p \<in> set picks" using rp(1) by (auto dest: set_zip_leftD set_zip_rightD)
  have "length rs = B" using d1 by (rule draws_length_eq)
  then have B: "B \<noteq> 0" using r by auto
  have "0 < length data" using ne B by simp
  then have rl: "r < length data" using draws_bound [OF ok, of "length data" r B g] r d1 by simp
  have "0 < length cols" using cne B by simp
  then have "p < length cols" using draws_bound [OF ok, of "length cols" p B g1] p d2 by simp
  then have "cols ! p \<in> set cols" by simp
  then have c: "- int K \<le> cols ! p" "cols ! p < int K" using rng by auto
  have row: "data ! r \<in> set data" using rl by simp
  then have len: "length (data ! r) = K" using rows by simp
  have "nat (col_index K (cols ! p)) < K" using col_index_range [OF c] by (simp add: nat_less_iff)
  then have "cell data r (cols ! p) \<in> set (data ! r)" unfolding cell_def len using len by simp
  then show ?thesis using row rp(2) by blast
qed

lemma ts_loop_runs:
  fixes arr_mc :: "'a::{zero,plus} matrix"
  assumes ok: "generator_ok G"
    and rows: "\<forall>row\<in>set arr_mc. length row = K"
    and B: "0 \<le> B"
    and ne: "arr_mc \<noteq> [] \<or> B = 0"
    and K: "3 \<le> K"
  shows "i + k \<le> length arr \<Longrightarrow>
         ts_loop G arr_mc B initial_balance [i..<i + k] arr g =
           (Inr (take i arr @
                 map (\<lambda>j. map (\<lambda>v. initial_balance + v)
                            (np_cumsum (fst (selected_payouts G arr_mc (nat B) [0, 1, 2]
                                          (run_state G arr_mc (nat B) [0, 1, 2] g j))))) [0..<k] @
                 drop (i + k) arr),
            run_state G arr_mc (nat B) [0, 1, 2] g k)"
proof (induction k arbitrary: i arr g)
  case 0
  then show ?case by (simp add: run_state_def)
next
  case (Suc k)
  let ?cols = "[0, 1, 2] :: int list"
  let ?row = "\<lambda>s. map (\<lambda>v. initial_balance + v)
                 (np_cumsum (fst (selected_payouts G arr_mc (nat B) ?cols s)))"
  let ?g' = "snd (selected_payouts G arr_mc (nat B) ?cols g)"
  have cne: "?cols \<noteq> [] \<or> B = 0" by simp
  have rng: "\<forall>c\<in>set ?cols. - int K \<le> c \<and> c < int K" using K by simp
  obtain row_arr g1 where b: "select_random_row G arr_mc B g = (Inr row_arr, g1)"
      "select_random_col G row_arr ?cols g1 =
         (Inr (fst (selected_payouts G arr_mc (nat B) ?cols g)), ?g')"
    using run_body [OF ok rows B ne cne rng, of g] by blast
  have i: "i < length arr" using Suc.prems by simp
  have up: "[i..<i + Suc k] = i # [Suc i..<Suc i + k]"
    by (simp add: upt_conv_Cons)
  have IH: "ts_loop G arr_mc B initial_balance [Suc i..<Suc i + k] (arr[i := ?row g]) ?g' =
           (Inr (take (Suc i) (arr[i := ?row g]) @
                 map (\<lambda>j. ?row (run_state G arr_mc (nat B) ?cols ?g' j)) [0..<k] @
                 drop (Suc i + k) (arr[i := ?row g])),
            run_state G arr_mc (nat B) ?cols ?g' k)"
    using Suc.prems by (intro Suc.IH) simp
  have t: "take (Suc i) (arr[i := ?row g]) = take i arr @ [?row g]"
    using i by (simp add: take_Suc_conv_app_nth)
  have m: "map (\<lambda>j. ?row (run_state G arr_mc (nat B) ?cols g j)) [0..<Suc k] =
           ?row g # map (\<lambda>j. ?row (run_state G arr_mc (nat B) ?cols ?g' j)) [0..<k]"
    unfolding map_upt_Suc by (simp add: run_state_Suc) (simp add: run_state_def)
  have "ts_loop G arr_mc B initial_balance [i..<i + Suc k] arr g =
        ts_loop G arr_mc B initial_balance [Suc i..<Suc i + k] (arr[i := ?row g]) ?g'"
    unfolding up using b by (simp add: Let_def)
  then show ?case
    unfolding IH t m by (simp add: run_state_Suc)
qed

lemma timeseries_arr_runs:
  fixes arr_mc :: "'a::{zero,plus} matrix"
  assumes ok: "generator_ok G"
    and rows: "\<forall>row\<in>set arr_mc. length row = K"
    and K: "3 \<le> K"
    and it: "0 \<le> n_iteration"
    and B: "0 \<le> n_bets_ts"
    and ne: "arr_mc \<noteq> [] \<or> n_bets_ts = 0"
  shows "timeseries_arr G arr_mc n_iteration n_bets_ts initial_balance g =
           (Inr (map (\<lambda>i. map (\<lambda>v. initial_balance + v)
                            (np_cumsum (fst (selected_payouts G arr_mc (nat n_bets_ts) [0, 1, 2]
                                          (run_state G arr_mc (nat n_bets_ts) [0, 1, 2] g i)))))
                   [0..<nat n_iteration]),
            run_state G arr_mc (nat n_bets_ts) [0, 1, 2] g (nat n_iteration))"
proof -
  let ?n = "nat n_iteration"
  let ?arr = "replicate ?n (np_empty (nat n_bets_ts)) :: 'a matrix"
  have "ts_loop G arr_mc n_bets_ts initial_balance [0..<0 + ?n] ?arr g =
          (Inr (take 0 ?arr @
                 map (\<lambda>j. map (\<lambda>v. initial_balance + v)
                            (np_cumsum (fst (selected_payouts G arr_mc (nat n_bets_ts) [0, 1, 2]
                                          (run_state G arr_mc (nat n_bets_ts) [0, 1, 2] g j))))) [0..<?n] @
                 drop (0 + ?n) ?arr),
            run_state G arr_mc (nat n_bets_ts) [0, 1, 2] g ?n)"
    using ok rows B ne K by (rule ts_loop_runs) simp
  then show ?thesis
    using it B by (simp add: timeseries_arr_def)
qed

lemma single_run:
  fixes data :: "'a::{zero,plus} matrix"
  assumes "generator_ok G"
    and "\<forall>row\<in>set data. length row = K"
    and "0 \<le> B"
    and "data \<noteq> [] \<or> B = 0"
    and "cols \<noteq> [] \<or> B = 0"
    and "\<forall>c\<in>set cols. - int K \<le> c \<and> c < int K"
  shows "fst (mc_loop G data B cols [0] (np_empty 1) s) =
         Inr [np_sum (fst (selected_payouts G data (nat B) cols s))]"
  using mc_loop_runs [OF assms, of 0 1 "np_empty 1" s]
  by (simp add: np_empty_def run_state_def)

subsection \<open>Interpolated percentiles\<close>

lemma np_lerp_eq: "np_lerp a b t = a + (b - a) * t"
  by (simp add: np_lerp_def algebra_simps)

lemma interpolate_eq:
  "interpolate s h =
     s ! nat \<lfloor>h\<rfloor> + (s ! min (nat \<lfloor>h\<rfloor> + 1) (length s - 1) - s ! nat \<lfloor>h\<rfloor>) * (h - real (nat \<lfloor>h\<rfloor>))"
  by (simp add: interpolate_def Let_def np_lerp_eq)

lemma frac_bounds:
  assumes "0 \<le> h"
  shows "0 \<le> h - real (nat \<lfloor>h\<rfloor>)" "h - real (nat \<lfloor>h\<rfloor>) < 1"
proof -
  have "0 \<le> \<lfloor>h\<rfloor>" using assms by simp
  then have "real (nat \<lfloor>h\<rfloor>) = of_int \<lfloor>h\<rfloor>" by simp
  then show "0 \<le> h - real (nat \<lfloor>h\<rfloor>)" "h - real (nat \<lfloor>h\<rfloor>) < 1"
    by linarith+
qed

lemma floor_index:
  assumes "0 \<le> h" "h \<le> real (length s - 1)"
  shows "nat \<lfloor>h\<rfloor> \<le> length s - 1"
proof -
  have "\<lfloor>h\<rfloor> \<le> int (length s - 1)" using assms(2) by (simp add: floor_le_iff)
  then show ?thesis by simp
qed

lemma interpolate_bounds:
  assumes s: "sorted s" "s \<noteq> []" and h: "0 \<le> h" "h \<le> real (length s - 1)"
  shows "s ! nat \<lfloor>h\<rfloor> \<le> interpolate s h"
    and "interpolate s h \<le> s ! min (nat \<lfloor>h\<rfloor> + 1) (length s - 1)"
proof -
  let ?i = "nat \<lfloor>h\<rfloor>" and ?j = "min (nat \<lfloor>h\<rfloor> + 1) (length s - 1)"
  have i: "?i \<le> length s - 1" using h by (rule floor_index)
  have j: "?i \<le> ?j" "?j < length s" using i s(2) by (auto simp: min_def)
  have d: "s ! ?i \<le> s ! ?j" using s(1) j by (rule sorted_nth_mono)
  have f: "0 \<le> h - real ?i" "h - real ?i < 1" using h(1) by (rule frac_bounds)+
  have "0 \<le> (s ! ?j - s ! ?i) * (h - real ?i)" using d f(1) by simp
  then show "s ! ?i \<le> interpolate s h" unfolding interpolate_eq by simp
  have "(s ! ?j - s ! ?i) * (h - real ?i) \<le> (s ! ?j - s ! ?i) * 1"
    using d f by (intro mult_left_mono) simp_all
  then show "interpolate s h \<le> s ! ?j" unfolding interpolate_eq by simp
qed

lemma interpolate_mono:
  assumes s: "sorted s" "s \<noteq> []"
    and h: "0 \<le> h1" "h1 \<le> h2" "h2 \<le> real (length s - 1)"
  shows "interpolate s h1 \<le> interpolate s h2"
proof -
  let ?i1 = "nat \<lfloor>h1\<rfloor>" and ?i2 = "nat \<lfloor>h2\<rfloor>"
  have h1': "h1 \<le> real (length s - 1)" and h2': "0 \<le> h2" using h by simp_all
  have le: "?i1 \<le> ?i2" using h(2) by (simp add: floor_mono nat_mono)
  have i2: "?i2 \<le> length s - 1" using h2' h(3) by (rule floor_index)
  show ?thesis
  proof (cases "?i1 = ?i2")
    case True
    let ?j = "min (?i2 + 1) (length s - 1)"
    have j: "?i2 \<le> ?j" "?j < length s" using i2 s(2) by (auto simp: min_def)
    have d: "s ! ?i2 \<le> s ! ?j" using s(1) j by (rule sorted_nth_mono)
    have "(s ! ?j - s ! ?i2) * (h1 - real ?i2) \<le> (s ! ?j - s ! ?i2) * (h2 - real ?i2)"
      using d h(2) by (intro mult_left_mono) simp_all
    then show ?thesis unfolding interpolate_eq True by simp
  next
    case False
    then have lt: "?i1 + 1 \<le> ?i2" using le by simp
    then have m: "min (?i1 + 1) (length s - 1) = ?i1 + 1" using i2 by simp
    have "interpolate s h1 \<le> s ! (?i1 + 1)"
      using interpolate_bounds(2) [OF s h(1) h1'] unfolding m .
    also have "s ! (?i1 + 1) \<le> s ! ?i2"
      using s(1) lt i2 s(2) by (intro sorted_nth_mono) auto
    also have "s ! ?i2 \<le> interpolate s h2"
      using s h2' h(3) by (rule interpolate_bounds(1))
    finally show ?thesis .
  qed
qed

lemma linear_percentile_mono:
  assumes "a \<noteq> []" "0 \<le> p" "p \<le> q" "q \<le> 100"
  shows "linear_percentile a p \<le> linear_percentile a q"
proof -
  let ?s = "sort a"
  let ?m = "real (length ?s - 1)"
  have "length ?s \<noteq> 0" using assms(1) by (simp only: length_sort length_0_conv) simp
  then have ne: "?s \<noteq> []" by (simp only: length_0_conv) simp
  have s: "sorted ?s" "?s \<noteq> []" using ne by simp_all
  have m: "0 \<le> ?m" by simp
  have a: "0 \<le> ?m * (p / 100)" using m assms(2) by simp
  have b: "?m * (p / 100) \<le> ?m * (q / 100)"
    using m assms(3) by (intro mult_left_mono) simp_all
  have "?m * (q / 100) \<le> ?m * 1"
    using m assms(4) by (intro mult_left_mono) simp_all
  then have c: "?m * (q / 100) \<le> real (length ?s - 1)" by simp
  show ?thesis
    unfolding linear_percentile_def Let_def
    using s a b c by (rule interpolate_mono)
qed



lemma quantiles_Inr:
  assumes "quantiles arr qs = Inr Q"
  shows "arr \<noteq> []"
    and "\<And>j. j < length qs \<Longrightarrow> 0 \<le> qs ! j \<and> qs ! j \<le> 100"
    and "length Q = length qs"
    and "\<And>j t. j < length qs \<Longrightarrow> t < length (hd arr) \<Longrightarrow>
           Q ! j ! t = linear_percentile (column arr t) (qs ! j)"
proof -
  have nb: "\<not> list_ex (\<lambda>q. q < 0 \<or> 100 < q) qs" and ne: "arr \<noteq> []"
    using assms by (auto simp: quantiles_def split: if_splits)
  then have Q: "Q = map (\<lambda>q. map (\<lambda>t. linear_percentile (column arr t) q) [0..<length (hd arr)]) qs"
    using assms by (simp add: quantiles_def)
  show "arr \<noteq> []" by (rule ne)
  show "0 \<le> qs ! j \<and> qs ! j \<le> 100" if "j < length qs" for j
  proof -
    have "qs ! j \<in> set qs" using that by simp
    then show ?thesis using nb by (auto simp: list_ex_iff not_less)
  qed
  show "length Q = length qs" by (simp add: Q)
  show "Q ! j ! t = linear_percentile (column arr t) (qs ! j)"
    if "j < length qs" "t < length (hd arr)" for j t
    using that by (simp add: Q)
qed

lemma quantiles_example:
  "quantiles [[100, 90], [110, 100], [90, 120], [95, 70]] [1, 50, 99] =
   Inr [[1803 / 20, 353 / 5], [195 / 2, 95], [1097 / 10, 597 / 5]]"
  by (simp add: quantiles_def column_def linear_percentile_def interpolate_def np_lerp_def
      upt_conv_Cons)

subsection \<open>Rows of the payout matrix\<close>

lemma those_map_Some: "those (map (\<lambda>x. Some (f x)) xs) = Some (map f xs)"
  by (induction xs) simp_all

lemma assign_fields:
  "winner_code_sofascore (assign c v r) = winner_code_sofascore r"
  "odds_column (assign c v r) = odds_column r"
  "betwin (assign c v r) c' = (if c' = c then Some v else betwin r c')"
  by (simp_all add: assign_def)

lemma loc_assign_fields:
  "winner_code_sofascore (loc_assign stake outcome time r) = winner_code_sofascore r"
  "odds_column (loc_assign stake outcome time r) = odds_column r"
  "betwin (loc_assign stake outcome time r) c =
     (if winner_code_sofascore r = outcome \<and> c = (outcome, time)
      then Some (stake * (odds_column r (outcome, time) - 1)) else betwin r c)"
  by (simp_all add: loc_assign_def assign_fields Let_def)

lemma preallocate_map:
  "preallocate stake df =
   map (\<lambda>r. assign (''2'', ''closed'') (- stake) (assign (''X'', ''closed'') (- stake)
               (assign (''1'', ''closed'') (- stake) r))) df"
  by (simp add: preallocate_def outcomes_def times_list_def comp_def)

lemma populate_map:
  "populate stake df =
   map (\<lambda>r. loc_assign stake ''2'' ''closed'' (loc_assign stake ''X'' ''closed''
               (loc_assign stake ''1'' ''closed'' r))) df"
  by (simp add: populate_def outcomes_def times_list_def comp_def)


lemma row_columns:
  "those (map (betwin (loc_assign stake ''2'' ''closed'' (loc_assign stake ''X'' ''closed''
               (loc_assign stake ''1'' ''closed''
                 (assign (''2'', ''closed'') (- stake) (assign (''X'', ''closed'') (- stake)
                   (assign (''1'', ''closed'') (- stake) r)))))))
       [(''1'', ''closed''), (''X'', ''closed''), (''2'', ''closed'')]) =
   Some (map (\<lambda>outcome. if winner_code_sofascore r = outcome
                          then stake * (odds_column r (outcome, ''closed'') - 1)
                          else - stake) outcomes)"
  by (simp add: loc_assign_fields assign_fields outcomes_def)

lemma arr_mc_eq:
  "arr_mc stake df =
   Inr (map (\<lambda>r. map (\<lambda>outcome. if winner_code_sofascore r = outcome
                          then stake * (odds_column r (outcome, ''closed'') - 1)
                          else - stake) outcomes) df)"
  unfolding arr_mc_def to_numpy_def populate_map preallocate_map map_map comp_def
    row_columns those_map_Some
  by simp

lemma one_outcome:
  assumes "w \<in> set outcomes"
  shows "\<exists>!k. k < 3 \<and> outcomes ! k = w"
proof -
  have d: "distinct outcomes" and l: "length outcomes = 3" by (simp_all add: outcomes_def)
  from assms obtain k where k: "k < length outcomes" "outcomes ! k = w"
    unfolding in_set_conv_nth by blast
  show ?thesis
  proof (rule ex1I [of _ k])
    show "k < 3 \<and> outcomes ! k = w" using k l by simp
  next
    fix j assume j: "j < 3 \<and> outcomes ! j = w"
    then have "j < length outcomes" "outcomes ! j = outcomes ! k" using k l by simp_all
    then show "j = k" using nth_eq_iff_index_eq [OF d, of j k] k(1) by simp
  qed
qed

section \<open>Terminal profits\<close>

text \<open>
  Claim C1. For a matrix whose rows all have \<open>K\<close> cells, enabled columns that are indices of
  such a row, and counts that are not negative (with rows and enabled columns to draw from
  unless the batch is empty), \<open>monte_carlo_sum\<close> returns an array of exactly \<open>iteration\<close>
  entries. Entry \<open>i\<close> is the sum, from zero and in drawing order, of the \<open>batch\<close> payouts
  selected in run \<open>i\<close>: one row drawn per bet with replacement, one enabled column chosen
  for each drawn row. Run \<open>0\<close> starts in the state seeded with 12345, each later run where
  the one before it stopped. For \<open>iteration = 0\<close> the array is empty, and the batch may be
  larger than the number of rows.
\<close>

theorem monte_carlo_sum_profits:
  fixes data :: "'a::{zero,plus} matrix"
  assumes "generator_ok G"
    and "\<forall>row\<in>set data. length row = K"
    and "0 \<le> iteration" and "0 \<le> batch"
    and "data \<noteq> [] \<or> batch = 0"
    and "cols \<noteq> [] \<or> batch = 0"
    and "\<forall>c\<in>set cols. - int K \<le> c \<and> c < int K"
  shows "\<exists>profit_arr.
           fst (monte_carlo_sum G data iteration batch cols g) = Inr profit_arr \<and>
           length profit_arr = nat iteration \<and>
           (\<forall>i<nat iteration.
              length (fst (selected_payouts G data (nat batch) cols
                        (run_state G data (nat batch) cols (reseed G 12345) i))) = nat batch \<and>
              profit_arr ! i =
                np_sum (fst (selected_payouts G data (nat batch) cols
                          (run_state G data (nat batch) cols (reseed G 12345) i))))"
  unfolding monte_carlo_sum_runs [OF assms, of g]
  by (simp add: selected_payouts_length)

theorem monte_carlo_sum_profits_witness:
  "\<exists>profit_arr.
     fst (monte_carlo_sum lcg [[10,-10,-10],[-10,10,-10],[-10,-10,10::int]] 2 4 [0,1,2] 0) = Inr profit_arr \<and>
     length profit_arr = 2 \<and> profit_arr ! 0 = 20 \<and> profit_arr ! 1 = -20"
proof -
  let ?M = "[[10,-10,-10],[-10,10,-10],[-10,-10,10::int]]"
  have p0: "np_sum (fst (selected_payouts lcg ?M (nat 4) [0,1,2]
              (run_state lcg ?M (nat 4) [0,1,2] (reseed lcg 12345) 0))) = 20"
    by code_simp
  have p1: "np_sum (fst (selected_payouts lcg ?M (nat 4) [0,1,2]
              (run_state lcg ?M (nat 4) [0,1,2] (reseed lcg 12345) 1))) = -20"
    by code_simp
  have h2: "\<forall>row\<in>set ?M. length row = 3" by simp
  have h3: "(0::int) \<le> 2" and h4: "(0::int) \<le> 4" by simp_all
  have h5: "?M \<noteq> [] \<or> (4::int) = 0" by simp
  have h6: "[0,1,2::int] \<noteq> [] \<or> (4::int) = 0" by simp
  have h7: "\<forall>c\<in>set [0,1,2::int]. - int 3 \<le> c \<and> c < int 3" by simp
  have n: "0 < nat 2" "1 < nat 2" "nat 2 = 2" by simp_all
  from monte_carlo_sum_profits [OF lcg_ok h2 h3 h4 h5 h6 h7, of 0]
  obtain profit_arr where
    r: "fst (monte_carlo_sum lcg ?M 2 4 [0,1,2] 0) = Inr profit_arr"
      "length profit_arr = nat 2"
    and a: "\<forall>i<nat 2. length (fst (selected_payouts lcg ?M (nat 4) [0,1,2]
              (run_state lcg ?M (nat 4) [0,1,2] (reseed lcg 12345) i))) = nat 4 \<and>
          profit_arr ! i = np_sum (fst (selected_payouts lcg ?M (nat 4) [0,1,2]
              (run_state lcg ?M (nat 4) [0,1,2] (reseed lcg 12345) i)))"
    by (elim exE conjE)
  have "profit_arr ! 0 = 20" using a [rule_format, OF n(1)] p0 by (simp only:)
  moreover have "profit_arr ! 1 = -20" using a [rule_format, OF n(2)] p1 by (simp only:)
  ultimately show ?thesis using r n(3) by (intro exI [of _ profit_arr]) (simp only: simp_thms)
qed

text \<open>
  Claim C7. With the single enabled column \<open>k\<close>, every run's profit is the sum of the cells
  in position \<open>k\<close> of the \<open>batch\<close> rows sampled for that run, and nothing else: the column
  selector, given the one enabled column \<open>k\<close>, returns cell \<open>k\<close> of each of its rows whatever
  the state of the generator.
\<close>

theorem single_column_profits:
  fixes data :: "'a::{zero,plus} matrix"
  assumes ok: "generator_ok G"
    and rows: "\<forall>row\<in>set data. length row = K"
    and it: "0 \<le> iteration" and b: "0 \<le> batch"
    and ne: "data \<noteq> [] \<or> batch = 0"
    and k: "k < K"
  shows "(\<exists>profit_arr.
            fst (monte_carlo_sum G data iteration batch [int k] g) = Inr profit_arr \<and>
            length profit_arr = nat iteration \<and>
            (\<forall>i<nat iteration.
               length (fst (draws G (length data) (nat batch)
                         (run_state G data (nat batch) [int k] (reseed G 12345) i))) = nat batch \<and>
               profit_arr ! i =
                 np_sum (map (\<lambda>r. data ! r ! k)
                          (fst (draws G (length data) (nat batch)
                             (run_state G data (nat batch) [int k] (reseed G 12345) i)))))) \<and>
         fst (select_random_col G data [int k] g) = Inr (map (\<lambda>row. row ! k) data)"
proof
  have c1: "[int k] \<noteq> [] \<or> batch = 0" by simp
  have c2: "\<forall>c\<in>set [int k]. - int K \<le> c \<and> c < int K" using k by simp
  have ck: "cell data r (int k) = data ! r ! k" for r
    by (simp add: cell_def col_index_def)
  show "\<exists>profit_arr.
            fst (monte_carlo_sum G data iteration batch [int k] g) = Inr profit_arr \<and>
            length profit_arr = nat iteration \<and>
            (\<forall>i<nat iteration.
               length (fst (draws G (length data) (nat batch)
                         (run_state G data (nat batch) [int k] (reseed G 12345) i))) = nat batch \<and>
               profit_arr ! i =
                 np_sum (map (\<lambda>r. data ! r ! k)
                          (fst (draws G (length data) (nat batch)
                             (run_state G data (nat batch) [int k] (reseed G 12345) i)))))"
    unfolding monte_carlo_sum_runs [OF ok rows it b ne c1 c2, of g]
    by (simp add: singleton_payouts [OF ok] draws_length ck)
next
  have c1: "[int k] \<noteq> [] \<or> data = []" by simp
  have c2: "\<forall>c\<in>set [int k]. - int K \<le> c \<and> c < int K" using k by simp
  have "fst (draws G (length [int k]) (length data) g) = replicate (length data) 0"
    using draws_below_one [OF ok] by simp
  then show "fst (select_random_col G data [int k] g) = Inr (map (\<lambda>row. row ! k) data)"
    unfolding select_random_col_ok [OF ok rows c1 c2, of g]
    by (simp add: map2_replicate col_index_def)
qed

theorem single_column_profits_witness:
  "\<exists>profit_arr.
     fst (monte_carlo_sum lcg [[1, 2, 3], [4, 5, 6], [7, 8, 9 :: int]] 2 3 [1] 0) = Inr profit_arr \<and>
     length profit_arr = 2 \<and> profit_arr ! 0 = 9 \<and> profit_arr ! 1 = 18 \<and>
     fst (draws lcg 3 3 (run_state lcg [[1, 2, 3], [4, 5, 6], [7, 8, 9 :: int]] 3 [1]
            (reseed lcg 12345) 0)) = [0, 0, 1] \<and>
     fst (draws lcg 3 3 (run_state lcg [[1, 2, 3], [4, 5, 6], [7, 8, 9 :: int]] 3 [1]
            (reseed lcg 12345) 1)) = [1, 1, 2] \<and>
     fst (select_random_col lcg [[1, 2, 3], [4, 5, 6], [7, 8, 9 :: int]] [1] 0) = Inr [2, 5, 8]"
proof -
  let ?M = "[[1, 2, 3], [4, 5, 6], [7, 8, 9 :: int]]"
  have d0: "fst (draws lcg (length ?M) (nat 3)
              (run_state lcg ?M (nat 3) [int 1] (reseed lcg 12345) 0)) = [0, 0, 1]"
    by code_simp
  have d1: "fst (draws lcg (length ?M) (nat 3)
              (run_state lcg ?M (nat 3) [int 1] (reseed lcg 12345) 1)) = [1, 1, 2]"
    by code_simp
  have p0: "np_sum (map (\<lambda>r. ?M ! r ! 1) [0, 0, 1]) = 9" by (simp add: np_sum_def)
  have p1: "np_sum (map (\<lambda>r. ?M ! r ! 1) [1, 1, 2]) = 18" by (simp add: np_sum_def)
  have c: "map (\<lambda>row. row ! 1) ?M = [2, 5, 8]" by simp
  have h2: "\<forall>row\<in>set ?M. length row = 3" by simp
  have h3: "(0::int) \<le> 2" and h4: "(0::int) \<le> 3" by simp_all
  have h5: "?M \<noteq> [] \<or> (3::int) = 0" by simp
  have h6: "(1::nat) < 3" by simp
  have n: "0 < nat 2" "1 < nat 2" "nat 2 = 2" by simp_all
  have i1: "[int 1] = [1]" "length ?M = 3" "nat 3 = 3" by simp_all
  note t = single_column_profits [OF lcg_ok h2 h3 h4 h5 h6, of 0]
  from t obtain profit_arr where
    r: "fst (monte_carlo_sum lcg ?M 2 3 [int 1] 0) = Inr profit_arr"
      "length profit_arr = nat 2"
    and a: "\<forall>i<nat 2. length (fst (draws lcg (length ?M) (nat 3)
                 (run_state lcg ?M (nat 3) [int 1] (reseed lcg 12345) i))) = nat 3 \<and>
          profit_arr ! i = np_sum (map (\<lambda>r. ?M ! r ! 1) (fst (draws lcg (length ?M) (nat 3)
                 (run_state lcg ?M (nat 3) [int 1] (reseed lcg 12345) i))))"
    by (elim exE conjE)
  have s: "fst (select_random_col lcg ?M [int 1] 0) = Inr [2, 5, 8]"
    using t c by (simp only:)
  have "profit_arr ! 0 = 9" using a [rule_format, OF n(1)] p0 unfolding d0 by (simp only:)
  moreover have "profit_arr ! 1 = 18" using a [rule_format, OF n(2)] p1 unfolding d1 by (simp only:)
  ultimately show ?thesis
    using r n(3) s d0 d1 unfolding i1 by (intro exI [of _ profit_arr]) (simp only: simp_thms)
qed

section \<open>Trajectories and terminal profits\<close>

text \<open>
  Claim C3, as the spec states it, fails in the arithmetic of the code. For a matrix whose
  cells are all the float64 written 8.3, one run of one bet and an initial balance of
  10000, the trajectory ends at the float64 nearest to 10008.3; subtracting the initial
  balance gives 8.299999999999272..., which is not the terminal profit 8.3 that
  \<open>monte_carlo_sum\<close> returns for the same draw.
\<close>

theorem rounding_breaks_terminal_difference:
  "fst (timeseries_arr lcg [[f64 (83 / 10), f64 (83 / 10), f64 (83 / 10)]] 1 1 (f64 10000)
          (reseed lcg 12345)) = Inr [[Float64 (2751060556067635 / 274877906944)]] \<and>
   fst (monte_carlo_sum lcg [[f64 (83 / 10), f64 (83 / 10), f64 (83 / 10)]] 1 1 [0, 1, 2] 0) =
     Inr [Float64 (2336242306698445 / 281474976710656)] \<and>
   last [Float64 (2751060556067635 / 274877906944)] - f64 10000 =
     Float64 (2281486627635 / 274877906944) \<and>
   Float64 (2281486627635 / 274877906944) \<noteq> Float64 (2336242306698445 / 281474976710656)"
  by code_simp

text \<open>
  Claim C3, amended. In the arithmetic of the code, whatever it is, provided only that
  adding a cell of the matrix to zero returns the cell: entry \<open>j\<close> of row \<open>i\<close> of the
  trajectory array is the initial balance plus the sum, as the engine forms it, of the
  first \<open>j + 1\<close> payouts selected in run \<open>i\<close>. The last entry of the row is the initial
  balance plus the terminal profit that one iteration of the loop of \<open>monte_carlo_sum\<close> with
  \<open>batch = n_bets_ts\<close> returns when it starts in the generator state in which the
  trajectory run started; subtracting the initial balance gives that profit back wherever
  this one addition and subtraction are exact. When the trajectory loop starts in the
  state seeded with 12345, the last entries of all rows are the initial balance plus the
  entries of the array that \<open>monte_carlo_sum\<close> returns.
\<close>

theorem trajectory_terminal_consistency:
  fixes arr_mc :: "'a::{zero,plus,minus} matrix"
  assumes ok: "generator_ok G"
    and rows: "\<forall>row\<in>set arr_mc. length row = K"
    and K: "3 \<le> K"
    and it: "0 \<le> n_iteration"
    and B: "0 < n_bets_ts"
    and ne: "arr_mc \<noteq> []"
    and zero: "\<forall>row\<in>set arr_mc. \<forall>x\<in>set row. 0 + x = x"
  shows "(\<exists>traj.
            fst (timeseries_arr G arr_mc n_iteration n_bets_ts initial_balance g) = Inr traj \<and>
            length traj = nat n_iteration \<and>
            (\<forall>i<nat n_iteration.
               length (traj ! i) = nat n_bets_ts \<and>
               (\<forall>j<nat n_bets_ts.
                  traj ! i ! j =
                    initial_balance +
                    np_sum (take (Suc j)
                      (fst (selected_payouts G arr_mc (nat n_bets_ts) [0, 1, 2]
                              (run_state G arr_mc (nat n_bets_ts) [0, 1, 2] g i))))) \<and>
               (\<exists>profit.
                  fst (mc_loop G arr_mc n_bets_ts [0, 1, 2] [0] (np_empty 1)
                         (run_state G arr_mc (nat n_bets_ts) [0, 1, 2] g i)) = Inr [profit] \<and>
                  last (traj ! i) = initial_balance + profit \<and>
                  ((initial_balance + profit) - initial_balance = profit \<longrightarrow>
                     last (traj ! i) - initial_balance = profit)))) \<and>
         (\<exists>traj profit_arr.
            fst (timeseries_arr G arr_mc n_iteration n_bets_ts initial_balance (reseed G 12345)) =
              Inr traj \<and>
            fst (monte_carlo_sum G arr_mc n_iteration n_bets_ts [0, 1, 2] g') = Inr profit_arr \<and>
            map last traj = map (\<lambda>profit. initial_balance + profit) profit_arr)"
proof -
  let ?cols = "[0, 1, 2] :: int list"
  let ?n = "nat n_bets_ts"
  let ?pay = "\<lambda>s. fst (selected_payouts G arr_mc ?n ?cols s)"
  let ?row = "\<lambda>s. map (\<lambda>v. initial_balance + v) (np_cumsum (?pay s))"
  have B0: "0 \<le> n_bets_ts" using B by simp
  have ne': "arr_mc \<noteq> [] \<or> n_bets_ts = 0" using ne by simp
  have ne'': "arr_mc \<noteq> [] \<or> ?n = 0" using ne by simp
  have cne: "?cols \<noteq> [] \<or> n_bets_ts = 0" by simp
  have cne': "?cols \<noteq> [] \<or> ?n = 0" by simp
  have rng: "\<forall>c\<in>set ?cols. - int K \<le> c \<and> c < int K" using K by simp
  have len: "length (?pay s) = ?n" for s by (rule selected_payouts_length)
  have pos: "0 < ?n" using B by simp
  have hd0: "0 + hd (?pay s) = hd (?pay s)" for s
  proof -
    have "?pay s \<noteq> []" using len [of s] pos by auto
    then have "hd (?pay s) \<in> set (?pay s)" by simp
    then obtain row where "row \<in> set arr_mc" "hd (?pay s) \<in> set row"
      using selected_payouts_cells [OF ok rows ne'' cne' rng] by blast
    then show ?thesis using zero by blast
  qed
  have entries: "?row s ! j = initial_balance + np_sum (take (Suc j) (?pay s))"
    if "j < ?n" for s j
    using that len [of s] hd0 [of s] by (simp add: np_cumsum_length np_cumsum_nth)
  have rlen: "length (?row s) = ?n" for s by (simp add: np_cumsum_length len)
  have lst: "last (?row s) = initial_balance + np_sum (?pay s)" for s
  proof -
    have "?row s \<noteq> []" using rlen [of s] pos by auto
    then have "last (?row s) = ?row s ! (?n - 1)" using rlen [of s] by (simp add: last_conv_nth)
    also have "\<dots> = initial_balance + np_sum (take (Suc (?n - 1)) (?pay s))"
      using pos by (intro entries) simp
    also have "take (Suc (?n - 1)) (?pay s) = ?pay s" using len [of s] pos by simp
    finally show ?thesis .
  qed
  have one: "fst (mc_loop G arr_mc n_bets_ts ?cols [0] (np_empty 1) s) = Inr [np_sum (?pay s)]" for s
    using ok rows B0 ne' cne rng by (rule single_run)
  have ts: "timeseries_arr G arr_mc n_iteration n_bets_ts initial_balance s =
        (Inr (map (\<lambda>i. ?row (run_state G arr_mc ?n ?cols s i)) [0..<nat n_iteration]),
         run_state G arr_mc ?n ?cols s (nat n_iteration))" for s
    by (rule timeseries_arr_runs [OF ok rows K it B0 ne'])
  have mc: "monte_carlo_sum G arr_mc n_iteration n_bets_ts ?cols g' =
        (Inr (map (\<lambda>i. np_sum (?pay (run_state G arr_mc ?n ?cols (reseed G 12345) i)))
               [0..<nat n_iteration]),
         run_state G arr_mc ?n ?cols (reseed G 12345) (nat n_iteration))"
    by (rule monte_carlo_sum_runs [OF ok rows it B0 ne' cne rng])
  let ?st = "\<lambda>s i. run_state G arr_mc ?n ?cols s i"
  let ?traj = "\<lambda>s. map (\<lambda>i. ?row (?st s i)) [0..<nat n_iteration]"
  have tr: "?traj s ! i = ?row (?st s i)" if "i < nat n_iteration" for s i
    using that by simp
  have run: "length (?traj g ! i) = nat n_bets_ts \<and>
               (\<forall>j<nat n_bets_ts.
                  ?traj g ! i ! j = initial_balance + np_sum (take (Suc j) (?pay (?st g i)))) \<and>
               (\<exists>profit.
                  fst (mc_loop G arr_mc n_bets_ts ?cols [0] (np_empty 1) (?st g i)) = Inr [profit] \<and>
                  last (?traj g ! i) = initial_balance + profit \<and>
                  ((initial_balance + profit) - initial_balance = profit \<longrightarrow>
                     last (?traj g ! i) - initial_balance = profit))"
    if i: "i < nat n_iteration" for i
  proof (intro conjI allI impI)
    show "length (?traj g ! i) = nat n_bets_ts" unfolding tr [OF i] by (rule rlen)
    show "?traj g ! i ! j = initial_balance + np_sum (take (Suc j) (?pay (?st g i)))"
      if "j < nat n_bets_ts" for j
      unfolding tr [OF i] using that by (rule entries)
    show "\<exists>profit.
            fst (mc_loop G arr_mc n_bets_ts ?cols [0] (np_empty 1) (?st g i)) = Inr [profit] \<and>
            last (?traj g ! i) = initial_balance + profit \<and>
            ((initial_balance + profit) - initial_balance = profit \<longrightarrow>
               last (?traj g ! i) - initial_balance = profit)"
      unfolding tr [OF i] lst by (rule exI [of _ "np_sum (?pay (?st g i))"]) (simp only: one simp_thms)
  qed
  have first: "\<exists>traj.
            fst (timeseries_arr G arr_mc n_iteration n_bets_ts initial_balance g) = Inr traj \<and>
            length traj = nat n_iteration \<and>
            (\<forall>i<nat n_iteration.
               length (traj ! i) = nat n_bets_ts \<and>
               (\<forall>j<nat n_bets_ts.
                  traj ! i ! j = initial_balance + np_sum (take (Suc j) (?pay (?st g i)))) \<and>
               (\<exists>profit.
                  fst (mc_loop G arr_mc n_bets_ts ?cols [0] (np_empty 1) (?st g i)) = Inr [profit] \<and>
                  last (traj ! i) = initial_balance + profit \<and>
                  ((initial_balance + profit) - initial_balance = profit \<longrightarrow>
                     last (traj ! i) - initial_balance = profit)))"
  proof (intro exI [of _ "?traj g"] conjI)
    show "fst (timeseries_arr G arr_mc n_iteration n_bets_ts initial_balance g) = Inr (?traj g)"
      unfolding ts by simp
    show "length (?traj g) = nat n_iteration" by simp
    show "\<forall>i<nat n_iteration.
               length (?traj g ! i) = nat n_bets_ts \<and>
               (\<forall>j<nat n_bets_ts.
                  ?traj g ! i ! j = initial_balance + np_sum (take (Suc j) (?pay (?st g i)))) \<and>
               (\<exists>profit.
                  fst (mc_loop G arr_mc n_bets_ts ?cols [0] (np_empty 1) (?st g i)) = Inr [profit] \<and>
                  last (?traj g ! i) = initial_balance + profit \<and>
                  ((initial_balance + profit) - initial_balance = profit \<longrightarrow>
                     last (?traj g ! i) - initial_balance = profit))"
      using run by blast
  qed
  have second: "\<exists>traj profit_arr.
            fst (timeseries_arr G arr_mc n_iteration n_bets_ts initial_balance (reseed G 12345)) =
              Inr traj \<and>
            fst (monte_carlo_sum G arr_mc n_iteration n_bets_ts ?cols g') = Inr profit_arr \<and>
            map last traj = map (\<lambda>profit. initial_balance + profit) profit_arr"
    unfolding ts mc by (simp add: lst o_def)
  show ?thesis using first second by (rule conjI)
qed

theorem trajectory_terminal_consistency_witness:
  "\<exists>traj.
     fst (timeseries_arr lcg
            [[f64 (83 / 10), f64 (- 10), f64 (- 10)], [f64 (- 10), f64 24, f64 (- 10)],
             [f64 (- 10), f64 (- 10), f64 11]] 2 3 (f64 10000) (reseed lcg 12345)) = Inr traj \<and>
     length traj = 2 \<and> length (traj ! 0) = 3 \<and>
     traj ! 0 ! 1 = Float64 (2748311776998195 / 274877906944) \<and>
     last (traj ! 0) = f64 10000 + Float64 (6276891980647629 / 281474976710656) \<and>
     fst (monte_carlo_sum lcg
            [[f64 (83 / 10), f64 (- 10), f64 (- 10)], [f64 (- 10), f64 24, f64 (- 10)],
             [f64 (- 10), f64 (- 10), f64 11]] 2 3 [0, 1, 2] 0) =
       Inr [Float64 (6276891980647629 / 281474976710656), Float64 4] \<and>
     map last traj =
       [f64 10000 + Float64 (6276891980647629 / 281474976710656), f64 10000 + Float64 4]"
proof -
  let ?M = "[[f64 (83 / 10), f64 (- 10), f64 (- 10)], [f64 (- 10), f64 24, f64 (- 10)],
             [f64 (- 10), f64 (- 10), f64 11]]"
  have e1: "f64 10000 + np_sum (take (Suc 1) (fst (selected_payouts lcg ?M (nat 3) [0, 1, 2]
              (run_state lcg ?M (nat 3) [0, 1, 2] (reseed lcg 12345) 0)))) =
            Float64 (2748311776998195 / 274877906944)"
    by code_simp
  have e2: "fst (mc_loop lcg ?M 3 [0, 1, 2] [0] (np_empty 1)
              (run_state lcg ?M (nat 3) [0, 1, 2] (reseed lcg 12345) 0)) =
            Inr [Float64 (6276891980647629 / 281474976710656)]"
    by code_simp
  have e3: "fst (monte_carlo_sum lcg ?M 2 3 [0, 1, 2] 0) =
            Inr [Float64 (6276891980647629 / 281474976710656), Float64 4]"
    by code_simp
  have h2: "\<forall>row\<in>set ?M. length row = 3" by simp
  have h3: "(3::nat) \<le> 3" and h4: "(0::int) \<le> 2" and h5: "(0::int) < 3" by simp_all
  have h6: "?M \<noteq> []" by simp
  have h7: "\<forall>row\<in>set ?M. \<forall>x\<in>set row. 0 + x = x" by code_simp
  have n: "0 < nat 2" "nat 2 = 2" "1 < nat 3" "nat 3 = 3" by simp_all
  note t = trajectory_terminal_consistency [OF lcg_ok h2 h3 h4 h5 h6 h7,
      where initial_balance = "f64 10000" and g = "reseed lcg 12345" and g' = 0]
  from t obtain traj where
    r: "fst (timeseries_arr lcg ?M 2 3 (f64 10000) (reseed lcg 12345)) = Inr traj"
      "length traj = nat 2"
    and a: "\<forall>i<nat 2.
              length (traj ! i) = nat 3 \<and>
              (\<forall>j<nat 3. traj ! i ! j =
                 f64 10000 + np_sum (take (Suc j) (fst (selected_payouts lcg ?M (nat 3) [0, 1, 2]
                   (run_state lcg ?M (nat 3) [0, 1, 2] (reseed lcg 12345) i))))) \<and>
              (\<exists>profit.
                 fst (mc_loop lcg ?M 3 [0, 1, 2] [0] (np_empty 1)
                        (run_state lcg ?M (nat 3) [0, 1, 2] (reseed lcg 12345) i)) = Inr [profit] \<and>
                 last (traj ! i) = f64 10000 + profit \<and>
                 ((f64 10000 + profit) - f64 10000 = profit \<longrightarrow>
                    last (traj ! i) - f64 10000 = profit))"
    by (elim exE conjE)
  from t obtain traj' profit_arr where
    r': "fst (timeseries_arr lcg ?M 2 3 (f64 10000) (reseed lcg 12345)) = Inr traj'"
      "fst (monte_carlo_sum lcg ?M 2 3 [0, 1, 2] 0) = Inr profit_arr"
      "map last traj' = map (\<lambda>profit. f64 10000 + profit) profit_arr"
    by (elim exE conjE)
  have same: "traj' = traj" using r(1) r'(1) by simp
  have pa: "profit_arr = [Float64 (6276891980647629 / 281474976710656), Float64 4]"
    using r'(2) e3 by simp
  from a [rule_format, OF n(1)] obtain profit where
    l0: "length (traj ! 0) = nat 3"
    and b: "\<forall>j<nat 3. traj ! 0 ! j =
              f64 10000 + np_sum (take (Suc j) (fst (selected_payouts lcg ?M (nat 3) [0, 1, 2]
                (run_state lcg ?M (nat 3) [0, 1, 2] (reseed lcg 12345) 0))))"
    and c: "fst (mc_loop lcg ?M 3 [0, 1, 2] [0] (np_empty 1)
                   (run_state lcg ?M (nat 3) [0, 1, 2] (reseed lcg 12345) 0)) = Inr [profit]"
      "last (traj ! 0) = f64 10000 + profit"
    by (elim exE conjE)
  have t1: "traj ! 0 ! 1 = Float64 (2748311776998195 / 274877906944)"
    using b [rule_format, OF n(3)] e1 by (simp only:)
  have "profit = Float64 (6276891980647629 / 281474976710656)" using c(1) e2 by simp
  then have la: "last (traj ! 0) = f64 10000 + Float64 (6276891980647629 / 281474976710656)"
    using c(2) by (simp only:)
  have ml: "map last traj =
       [f64 10000 + Float64 (6276891980647629 / 281474976710656), f64 10000 + Float64 4]"
    using r'(3) unfolding same pa by (simp only: list.map)
  show ?thesis
    using r(1) r(2) [unfolded n(2)] l0 [unfolded n(4)] t1 la e3 ml
    by (intro exI [of _ traj]) (simp only: simp_thms)
qed

section \<open>Failures and corrupted cells\<close>

text \<open>
  Claim C5, as the spec states it, fails: counts of zero are not rejected. With a batch of
  zero bets the engine returns a profit of zero for the run, and with zero iterations it
  returns the empty array.
\<close>

theorem zero_counts_accepted:
  "fst (monte_carlo_sum lcg [[10, - 10, - 10 :: int]] 1 0 [0, 1, 2] 0) = Inr [0] \<and>
   fst (monte_carlo_sum lcg [[10, - 10, - 10 :: int]] 0 1 [0, 1, 2] 0) = Inr []"
  by code_simp

text \<open>
  Claim C5, amended. The row sampler fails with \<open>ValueError\<close> exactly for a negative number
  of rows to draw, or a positive one from a matrix without rows; the column selector
  exactly for an empty column set and a matrix with rows; the engine exactly for a
  negative iteration count, or at least one iteration with a negative batch, or with a
  positive batch and a matrix without rows or an empty column set. In each case the first
  run already fails and no profit array is returned. Zero counts are valid: no iteration
  gives the empty array, with the generator reseeded, and an empty batch gives a profit of
  zero in every run.
\<close>

theorem value_error_iff:
  fixes data :: "'a::{zero,plus} matrix"
  shows "(fst (select_random_row G data num_rows g) = Inl ValueError \<longleftrightarrow>
            num_rows < 0 \<or> (data = [] \<and> 0 < num_rows)) \<and>
         (fst (select_random_col G data cols g) = Inl ValueError \<longleftrightarrow>
            cols = [] \<and> data \<noteq> []) \<and>
         (fst (monte_carlo_sum G data iteration batch cols g) = Inl ValueError \<longleftrightarrow>
            rejected data iteration batch cols) \<and>
         monte_carlo_sum G data 0 batch cols g = (Inr [], reseed G 12345) \<and>
         fst (monte_carlo_sum G data iteration 0 cols g) =
           (if iteration < 0 then Inl ValueError else Inr (replicate (nat iteration) 0))"
proof (intro conjI)
  show "fst (select_random_row G data num_rows g) = Inl ValueError \<longleftrightarrow>
            num_rows < 0 \<or> (data = [] \<and> 0 < num_rows)"
    by (simp add: select_random_row_cases)
  show "fst (select_random_col G data cols g) = Inl ValueError \<longleftrightarrow> cols = [] \<and> data \<noteq> []"
    by (rule select_random_col_ValueError)
  show "fst (monte_carlo_sum G data iteration batch cols g) = Inl ValueError \<longleftrightarrow>
            rejected data iteration batch cols"
  proof (cases "iteration < 0")
    case True
    then show ?thesis by (simp add: monte_carlo_sum_def rejected_def Let_def)
  next
    case False
    then have "[0..<nat iteration] \<noteq> [] \<longleftrightarrow> 0 < iteration" by auto
    then show ?thesis
      using False mc_loop_ValueError [of G data batch cols "[0..<nat iteration]"]
      by (simp add: monte_carlo_sum_def rejected_def Let_def)
  qed
  show "monte_carlo_sum G data 0 batch cols g = (Inr [], reseed G 12345)"
    by (simp add: monte_carlo_sum_def Let_def np_empty_def)
  show "fst (monte_carlo_sum G data iteration 0 cols g) =
           (if iteration < 0 then Inl ValueError else Inr (replicate (nat iteration) 0))"
    using mc_loop_empty_batch [of 0 "nat iteration" "np_empty (nat iteration)" G data cols "reseed G 12345"]
    by (simp add: monte_carlo_sum_def Let_def np_empty_def)
qed

theorem value_error_iff_witness:
  "fst (monte_carlo_sum lcg ([] :: int matrix) 2 3 [0, 1, 2] 0) = Inl ValueError \<and>
   fst (monte_carlo_sum lcg [[10, - 10, - 10 :: int]] 2 3 [] 0) = Inl ValueError \<and>
   fst (monte_carlo_sum lcg [[10, - 10, - 10 :: int]] (- 1) 3 [0] 0) = Inl ValueError \<and>
   fst (monte_carlo_sum lcg [[10, - 10, - 10 :: int]] 2 (- 1) [0] 0) = Inl ValueError \<and>
   fst (monte_carlo_sum lcg [[10, - 10, - 10 :: int]] 2 0 [0] 0) = Inr [0, 0]"
  using value_error_iff [of lcg "[] :: int matrix" 3 0 "[0, 1, 2]" 2 3]
    value_error_iff [of lcg "[[10, - 10, - 10 :: int]]" 3 0 "[]" 2 3]
    value_error_iff [of lcg "[[10, - 10, - 10 :: int]]" 3 0 "[0]" "- 1" 3]
    value_error_iff [of lcg "[[10, - 10, - 10 :: int]]" 3 0 "[0]" 2 "- 1"]
    value_error_iff [of lcg "[[10, - 10, - 10 :: int]]" 3 0 "[0]" 2 0]
  by (simp add: rejected_def eval_nat_numeral)

text \<open>
  Claim C6, as the spec states it, fails: the engine has no check for non-finite cells. A
  matrix holding NaN is processed like any other, and the run succeeds with NaN as its
  profit.
\<close>

theorem nan_is_returned:
  "fst (monte_carlo_sum lcg [[NaN, Finite 1]] 1 2 [0, 1] 0) = Inr [NaN]"
  by code_simp

text \<open>
  Claim C6, amended. A non-finite payout cell raises nothing: under the conditions of
  claim C1 the engine returns its array of \<open>iteration\<close> profits, and every run that selected
  a NaN cell has NaN as its profit.
\<close>

theorem nan_propagates:
  fixes data :: "payout matrix"
  assumes "generator_ok G"
    and "\<forall>row\<in>set data. length row = K"
    and "0 \<le> iteration" and "0 \<le> batch"
    and "data \<noteq> [] \<or> batch = 0"
    and "cols \<noteq> [] \<or> batch = 0"
    and "\<forall>c\<in>set cols. - int K \<le> c \<and> c < int K"
  shows "\<exists>profit_arr.
           fst (monte_carlo_sum G data iteration batch cols g) = Inr profit_arr \<and>
           length profit_arr = nat iteration \<and>
           (\<forall>i<nat iteration.
              NaN \<in> set (fst (selected_payouts G data (nat batch) cols
                          (run_state G data (nat batch) cols (reseed G 12345) i)))
              \<longrightarrow> profit_arr ! i = NaN)"
  unfolding monte_carlo_sum_runs [OF assms, of g]
  by (simp add: np_sum_NaN)

theorem nan_propagates_witness:
  "\<exists>profit_arr.
     fst (monte_carlo_sum lcg [[NaN, Finite 1], [Finite 2, Finite 3]] 1 3 [0, 1] 0) = Inr profit_arr \<and>
     length profit_arr = 1 \<and> profit_arr ! 0 = NaN"
proof -
  let ?M = "[[NaN, Finite 1], [Finite 2, Finite 3]]"
  have p0: "fst (selected_payouts lcg ?M (nat 3) [0, 1]
              (run_state lcg ?M (nat 3) [0, 1] (reseed lcg 12345) 0)) = [Finite 1, NaN, Finite 1]"
    by code_simp
  have h2: "\<forall>row\<in>set ?M. length row = 2" by simp
  have h3: "(0::int) \<le> 1" and h4: "(0::int) \<le> 3" by simp_all
  have h5: "?M \<noteq> [] \<or> (3::int) = 0" by simp
  have h6: "[0, 1::int] \<noteq> [] \<or> (3::int) = 0" by simp
  have h7: "\<forall>c\<in>set [0, 1::int]. - int 2 \<le> c \<and> c < int 2" by simp
  have n: "0 < nat 1" "nat 1 = 1" by simp_all
  from nan_propagates [OF lcg_ok h2 h3 h4 h5 h6 h7, of 0]
  obtain profit_arr where
    r: "fst (monte_carlo_sum lcg ?M 1 3 [0, 1] 0) = Inr profit_arr"
      "length profit_arr = nat 1"
    and a: "\<forall>i<nat 1. NaN \<in> set (fst (selected_payouts lcg ?M (nat 3) [0, 1]
                 (run_state lcg ?M (nat 3) [0, 1] (reseed lcg 12345) i)))
              \<longrightarrow> profit_arr ! i = NaN"
    by (elim exE conjE)
  have "NaN \<in> set (fst (selected_payouts lcg ?M (nat 3) [0, 1]
              (run_state lcg ?M (nat 3) [0, 1] (reseed lcg 12345) 0)))"
    unfolding p0 by simp
  then have "profit_arr ! 0 = NaN" using a [rule_format, OF n(1)] by (simp only:)
  then show ?thesis
    using r n(2) by (intro exI [of _ profit_arr]) (simp only: simp_thms)
qed

section \<open>Quantiles of the trajectories\<close>

text \<open>
  Claim C4. Whenever the quantile aggregation returns a result, at every time step the
  value of a lower requested percentile is at most the value of a higher one.
\<close>

theorem quantiles_monotone:
  assumes "quantiles arr quantiles_arr = Inr Q"
    and "j1 < length quantiles_arr" and "j2 < length quantiles_arr"
    and "quantiles_arr ! j1 \<le> quantiles_arr ! j2"
    and "t < length (hd arr)"
  shows "Q ! j1 ! t \<le> Q ! j2 ! t"
proof -
  note q = quantiles_Inr [OF assms(1)]
  have "column arr t \<noteq> []" using q(1) by (simp add: column_def)
  moreover have "0 \<le> quantiles_arr ! j1" using q(2) [OF assms(2)] by simp
  moreover have "quantiles_arr ! j2 \<le> 100" using q(2) [OF assms(3)] by simp
  ultimately have "linear_percentile (column arr t) (quantiles_arr ! j1) \<le>
                   linear_percentile (column arr t) (quantiles_arr ! j2)"
    using assms(4) by (intro linear_percentile_mono)
  then show ?thesis
    using q(4) [OF assms(2,5)] q(4) [OF assms(3,5)] by simp
qed

theorem quantiles_monotone_witness:
  "quantiles [[100, 90], [110, 100], [90, 120], [95, 70]] [1, 50, 99] =
     Inr [[1803 / 20, 353 / 5], [195 / 2, 95], [1097 / 10, 597 / 5]] \<and>
   [[1803 / 20, 353 / 5], [195 / 2, 95], [1097 / 10, 597 / 5 :: real]] ! 0 ! 1 \<le>
   [[1803 / 20, 353 / 5], [195 / 2, 95], [1097 / 10, 597 / 5]] ! 2 ! 1"
proof -
  have j: "0 < length [1, 50, 99 :: real]" "2 < length [1, 50, 99 :: real]" by simp_all
  have o: "[1, 50, 99 :: real] ! 0 \<le> [1, 50, 99] ! 2" by simp
  have t: "1 < length (hd [[100, 90], [110, 100], [90, 120], [95, 70 :: real]])" by simp
  show ?thesis
    using quantiles_example quantiles_monotone [OF quantiles_example j o t]
    by (intro conjI)
qed



section \<open>The constructed payout matrix\<close>

text \<open>
  Claim C8, as the spec states it, fails: not every row has a column with the win value. A
  match whose winner code is none of the three outcomes gets \<open>- stake_per_game\<close> in all
  three columns. With a stake of 10 and odds 2, 3 and 4 the win values would be 10, 20 and
  30; the row of a match with winner code \<open>3\<close> is \<open>-10, -10, -10\<close>.
\<close>

theorem arr_mc_unknown_winner:
  "arr_mc 10 [\<lparr>winner_code_sofascore = ''3'',
                odds_column = (\<lambda>c. if fst c = ''1'' then 2 else if fst c = ''X'' then 3 else 4),
                betwin = Map.empty\<rparr>] = Inr [[- 10, - 10, - 10]] \<and>
   map (\<lambda>outcome. 10 * ((if outcome = ''1'' then 2 else if outcome = ''X'' then 3 else 4) - 1))
     outcomes = [10, 20, 30 :: real]"
  by (simp add: arr_mc_eq outcomes_def)

text \<open>
  Claim C8, amended. Every row of the matrix has three cells, one for each of the outcomes
  \<open>1\<close>, \<open>X\<close>, \<open>2\<close> in this order: the cell of an outcome holds
  \<open>stake_per_game * (odds - 1)\<close> for the closing odds of the outcome when the winner code of
  the match is that outcome, and \<open>- stake_per_game\<close> otherwise. So the row of a match whose
  winner code is one of the three outcomes has exactly one column, the one of that outcome,
  that holds the win value while the other two hold \<open>- stake_per_game\<close>; the row of a match
  with any other winner code holds \<open>- stake_per_game\<close> in all three columns.
\<close>

theorem arr_mc_rows:
  assumes "r < length df_mc_set"
  shows "\<exists>m. arr_mc stake_per_game df_mc_set = Inr m \<and>
           length m = length df_mc_set \<and> length (m ! r) = 3 \<and>
           (\<forall>k<3. m ! r ! k =
              (if outcomes ! k = winner_code_sofascore (df_mc_set ! r)
               then stake_per_game * (odds_column (df_mc_set ! r) (outcomes ! k, ''closed'') - 1)
               else - stake_per_game)) \<and>
           (winner_code_sofascore (df_mc_set ! r) \<in> set outcomes \<longrightarrow>
              (\<exists>!k. k < 3 \<and> outcomes ! k = winner_code_sofascore (df_mc_set ! r) \<and>
                 m ! r ! k =
                   stake_per_game *
                   (odds_column (df_mc_set ! r)
                      (winner_code_sofascore (df_mc_set ! r), ''closed'') - 1) \<and>
                 (\<forall>j<3. j \<noteq> k \<longrightarrow> m ! r ! j = - stake_per_game))) \<and>
           (winner_code_sofascore (df_mc_set ! r) \<notin> set outcomes \<longrightarrow>
              m ! r = [- stake_per_game, - stake_per_game, - stake_per_game])"
proof -
  let ?w = "winner_code_sofascore (df_mc_set ! r)"
  let ?F = "\<lambda>r. map (\<lambda>outcome. if winner_code_sofascore r = outcome
                          then stake_per_game * (odds_column r (outcome, ''closed'') - 1)
                          else - stake_per_game) outcomes"
  let ?m = "map ?F df_mc_set"
  have l: "length outcomes = 3" by (simp add: outcomes_def)
  have row: "?m ! r = ?F (df_mc_set ! r)" using assms(1) by (rule nth_map)
  have len: "length (?m ! r) = 3" unfolding row using l by simp
  have cells: "?m ! r ! k =
              (if outcomes ! k = ?w
               then stake_per_game * (odds_column (df_mc_set ! r) (outcomes ! k, ''closed'') - 1)
               else - stake_per_game)" if "k < 3" for k
    unfolding row using that l by (simp add: eq_commute)
  have one: "\<exists>!k. k < 3 \<and> outcomes ! k = ?w \<and>
                 ?m ! r ! k = stake_per_game * (odds_column (df_mc_set ! r) (?w, ''closed'') - 1) \<and>
                 (\<forall>j<3. j \<noteq> k \<longrightarrow> ?m ! r ! j = - stake_per_game)"
    if w: "?w \<in> set outcomes"
  proof -
    from one_outcome [OF w] obtain k where k: "k < 3" "outcomes ! k = ?w"
      and u: "\<And>j. j < 3 \<and> outcomes ! j = ?w \<Longrightarrow> j = k"
      by (auto elim!: ex1E)
    show ?thesis
    proof (rule ex1I [of _ k])
      have "?m ! r ! k = stake_per_game * (odds_column (df_mc_set ! r) (?w, ''closed'') - 1)"
        using cells [OF k(1)] k(2) by simp
      moreover have "?m ! r ! j = - stake_per_game" if "j < 3" "j \<noteq> k" for j
        using cells [OF that(1)] u [of j] that by auto
      ultimately show "k < 3 \<and> outcomes ! k = ?w \<and>
                 ?m ! r ! k = stake_per_game * (odds_column (df_mc_set ! r) (?w, ''closed'') - 1) \<and>
                 (\<forall>j<3. j \<noteq> k \<longrightarrow> ?m ! r ! j = - stake_per_game)"
        using k by blast
    next
      fix j
      assume "j < 3 \<and> outcomes ! j = ?w \<and>
                 ?m ! r ! j = stake_per_game * (odds_column (df_mc_set ! r) (?w, ''closed'') - 1) \<and>
                 (\<forall>i<3. i \<noteq> j \<longrightarrow> ?m ! r ! i = - stake_per_game)"
      then show "j = k" using u [of j] by blast
    qed
  qed
  have none: "?m ! r = [- stake_per_game, - stake_per_game, - stake_per_game]"
    if "?w \<notin> set outcomes"
    unfolding row using that by (auto simp: outcomes_def)
  show ?thesis
  proof (intro exI [of _ ?m] conjI allI impI)
    show "arr_mc stake_per_game df_mc_set = Inr ?m" by (rule arr_mc_eq)
    show "length ?m = length df_mc_set" by simp
    show "length (?m ! r) = 3" by (rule len)
    show "?m ! r ! k =
              (if outcomes ! k = ?w
               then stake_per_game * (odds_column (df_mc_set ! r) (outcomes ! k, ''closed'') - 1)
               else - stake_per_game)" if "k < 3" for k
      using that by (rule cells)
    show "\<exists>!k. k < 3 \<and> outcomes ! k = ?w \<and>
                 ?m ! r ! k = stake_per_game * (odds_column (df_mc_set ! r) (?w, ''closed'') - 1) \<and>
                 (\<forall>j<3. j \<noteq> k \<longrightarrow> ?m ! r ! j = - stake_per_game)"
      if "?w \<in> set outcomes"
      using that by (rule one)
    show "?m ! r = [- stake_per_game, - stake_per_game, - stake_per_game]"
      if "?w \<notin> set outcomes"
      using that by (rule none)
  qed
qed

theorem arr_mc_rows_witness:
  "\<exists>m. arr_mc 10 [\<lparr>winner_code_sofascore = ''3'',
                    odds_column = (\<lambda>c. if fst c = ''1'' then 2 else if fst c = ''X'' then 3 else 4),
                    betwin = Map.empty\<rparr>,
                  \<lparr>winner_code_sofascore = ''2'',
                    odds_column =
                      (\<lambda>c. if fst c = ''1'' then 3 / 2 else if fst c = ''X'' then 7 / 2 else 6),
                    betwin = Map.empty\<rparr>] = Inr m \<and>
       length m = 2 \<and> length (m ! 1) = 3 \<and>
       m ! 1 ! 0 = - 10 \<and> m ! 1 ! 1 = - 10 \<and> m ! 1 ! 2 = 50 \<and>
       m ! 0 = [- 10, - 10, - 10]"
proof -
  let ?df = "[\<lparr>winner_code_sofascore = ''3'',
                    odds_column = (\<lambda>c. if fst c = ''1'' then 2 else if fst c = ''X'' then 3 else 4),
                    betwin = Map.empty\<rparr>,
                  \<lparr>winner_code_sofascore = ''2'',
                    odds_column =
                      (\<lambda>c. if fst c = ''1'' then 3 / 2 else if fst c = ''X'' then 7 / 2 else 6),
                    betwin = Map.empty\<rparr>]"
  have h1: "1 < length ?df" and h0: "0 < length ?df" by simp_all
  from arr_mc_rows [OF h1, of 10]
  obtain m where
    r: "arr_mc 10 ?df = Inr m" "length m = length ?df" "length (m ! 1) = 3"
    and a: "\<forall>k<3. m ! 1 ! k =
              (if outcomes ! k = winner_code_sofascore (?df ! 1)
               then 10 * (odds_column (?df ! 1) (outcomes ! k, ''closed'') - 1)
               else - 10)"
    by (elim exE conjE)
  from arr_mc_rows [OF h0, of 10]
  obtain m' where
    r': "arr_mc 10 ?df = Inr m'"
    and n: "winner_code_sofascore (?df ! 0) \<notin> set outcomes \<longrightarrow> m' ! 0 = [- 10, - 10, - 10]"
    by (elim exE conjE)
  have same: "m' = m" using r(1) r' by simp
  have "m ! 1 ! 0 = - 10" using a [rule_format, of 0] by (simp add: outcomes_def)
  moreover have "m ! 1 ! 1 = - 10" using a [rule_format, of 1] by (simp add: outcomes_def)
  moreover have "m ! 1 ! 2 = 50" using a [rule_format, of 2] by (simp add: outcomes_def)
  moreover have "m ! 0 = [- 10, - 10, - 10]" using n unfolding same by (simp add: outcomes_def)
  ultimately show ?thesis using r by (intro exI [of _ m]) simp
qed

end
